theory Spec2Isabelle
  imports Main
begin

chapter \<open>The client-side audio and text pipeline of the interview page\<close>

text \<open>
  A shallow embedding of the browser-side pipeline: the text-chunk buffer of the interview
  page (\<^verbatim>\<open>processTextBuffer\<close>), the speech synthesizer hook (\<^verbatim>\<open>useTextToSpeech\<close>),
  the playback queue hook (\<^verbatim>\<open>useAudioQueue\<close>), the transcription hook
  (\<^verbatim>\<open>useSpeechToText\<close>) and the handlers of the page that wire them to the socket.

  JavaScript runs these handlers on one thread. A handler runs to completion unless it
  reaches an \<^verbatim>\<open>await\<close>; every function below is one such uninterrupted segment, and
  asynchrony is the order in which an event list applies the segments. React state and
  refs are fields of a record. A ref is read as its current value. A state variable is
  read as the closure that reads it has it: the playback queue keeps the values that the
  last render saw beside the newest ones, and the completion handler of the page takes
  the \<open>isTranscribing\<close> of its render as an argument.
\<close>

section \<open>Strings\<close>

text \<open>
  Strings are lists of 8-bit characters. \<^verbatim>\<open>\s\<close> and \<^verbatim>\<open>String.prototype.trim\<close> use the same
  set of white space; in the 8-bit range it is tab, line feed, vertical tab, form feed,
  carriage return, space and no-break space.
\<close>

definition isSpace :: "char \<Rightarrow> bool" where
  "isSpace c = (c \<in> set [CHR 0x09, CHR 0x0A, CHR 0x0B, CHR 0x0C, CHR 0x0D, CHR 0x20, CHR 0xA0])"

text \<open>\<^verbatim>\<open>text.trim()\<close>\<close>

definition trim :: "string \<Rightarrow> string" where
  "trim s = rev (dropWhile isSpace (rev (dropWhile isSpace s)))"

text \<open>
  \<^verbatim>\<open>text.split(/\s+/)\<close>: the pieces between maximal runs of white space. The empty string
  gives one empty piece; white space at either end gives an empty piece there.
\<close>

fun splitWs :: "string \<Rightarrow> string list" where
  "splitWs [] = [[]]"
| "splitWs (c # cs) =
     (if isSpace c then (if cs \<noteq> [] \<and> isSpace (hd cs) then splitWs cs else [] # splitWs cs)
      else (case splitWs cs of [] \<Rightarrow> [[c]] | w # ws \<Rightarrow> (c # w) # ws))"

text \<open>\<^verbatim>\<open>words.join(' ')\<close>\<close>

fun joinSp :: "string list \<Rightarrow> string" where
  "joinSp [] = []"
| "joinSp [w] = w"
| "joinSp (w # v # ws) = w @ CHR '' '' # joinSp (v # ws)"

text \<open>\<^verbatim>\<open>text.trim().split(/\s+/).filter(Boolean).length\<close>: the empty string is the only falsy string.\<close>

definition countWords :: "string \<Rightarrow> nat" where
  "countWords s = length (filter (\<lambda>w. w \<noteq> []) (splitWs (trim s)))"

text \<open>\<^verbatim>\<open>words.slice(0, n)\<close> is \<^term>\<open>take n\<close> and \<^verbatim>\<open>words.slice(n)\<close> is \<^term>\<open>drop n\<close>.\<close>

definition extractFirstNWords :: "string \<Rightarrow> nat \<Rightarrow> string \<times> string" where
  "extractFirstNWords s n =
     (let words = splitWs (trim s) in (joinSp (take n words), joinSp (drop n words)))"

text \<open>
  The words of a text as the specification names them: the maximal runs of characters
  that are not white space, in order. This definition follows the specification
  (``words = whitespace-delimited non-empty tokens''), not the code.
\<close>

function wordsOf :: "string \<Rightarrow> string list" where
  "wordsOf s =
     (let rest = dropWhile isSpace s in
      if rest = [] then []
      else takeWhile (\<lambda>c. \<not> isSpace c) rest # wordsOf (dropWhile (\<lambda>c. \<not> isSpace c) rest))"
  by pat_completeness auto
termination
proof (relation "measure length")
  fix s rest :: string
  assume r: "rest = dropWhile isSpace s" and ne: "rest \<noteq> []"
  from ne obtain c cs where rc: "rest = c # cs" by (cases rest) auto
  with r have "\<not> isSpace c" by (metis hd_dropWhile list.sel(1) ne)
  then have "dropWhile (\<lambda>c. \<not> isSpace c) rest = dropWhile (\<lambda>c. \<not> isSpace c) cs"
    using rc by simp
  moreover have "length (dropWhile (\<lambda>c. \<not> isSpace c) cs) \<le> length cs"
    by (rule length_dropWhile_le)
  moreover have "length rest \<le> length s" using r by (simp add: length_dropWhile_le)
  ultimately show "(dropWhile (\<lambda>c. \<not> isSpace c) rest, s) \<in> measure length"
    using rc by simp
qed simp

declare wordsOf.simps [simp del]

section \<open>The speech synthesizer: \<^verbatim>\<open>useTextToSpeech\<close>\<close>

text \<open>Every exception the modelled code can raise.\<close>

datatype device = Recorder | Tracks | WebSocket

datatype error =
    NoTextProvided
  | FetchRejected
  | TtsFailed nat string
  | DecodeFailed
  | AudioNodeError
  | CallbackError
  | ReleaseError device
  | MicrophoneError
  | RecorderError
  | ConnectionError
  | ParseError

datatype audioBuffer = AudioBuffer nat

text \<open>
  What the text-to-speech service answers to one request: the request itself is rejected,
  or a response arrives with its \<^verbatim>\<open>ok\<close> flag, status, status text and the result of
  decoding its body (\<^term>\<open>None\<close> when \<^verbatim>\<open>decodeAudioData\<close> rejects).
\<close>

datatype fetchOutcome =
    Rejected
  | Response bool nat string "audioBuffer option"

definition textToAudioBuffer :: "fetchOutcome \<Rightarrow> string \<Rightarrow> error + audioBuffer" where
  "textToAudioBuffer outcome s =
     (if trim s = [] then Inl NoTextProvided
      else case outcome of
        Rejected \<Rightarrow> Inl FetchRejected
      | Response ok status statusText decoded \<Rightarrow>
          if \<not> ok then Inl (TtsFailed status statusText)
          else case decoded of None \<Rightarrow> Inl DecodeFailed | Some audio \<Rightarrow> Inr audio)"

section \<open>The playback queue: \<^verbatim>\<open>useAudioQueue\<close>\<close>

record audioQueueItem =
  itemId :: string
  itemAudioBuffer :: audioBuffer
  itemText :: string

datatype audioContext = AudioContext

text \<open>
  React state is kept twice. \<open>queue\<close>, \<open>isPlaying\<close> and \<open>currentPlayingText\<close> are the values
  the setters have produced so far, in the order they were called. \<open>renderedQueue\<close>,
  \<open>renderedIsPlaying\<close> and \<open>renderedIsUserSpeaking\<close> are what the last render saw: the
  callback \<^verbatim>\<open>playNext\<close> and the two effects are closures of that render and read these, not
  the newer values. \<open>effectsPending\<close> holds between the commit of a render and the run of
  its effects.

  The refs are \<open>audioContextRef\<close>, \<open>currentSourceRef\<close> and \<open>hasPlayedFirstAudioRef\<close>. A source
  node is identified by the number of nodes created before it. Six more fields record
  what the code does to its surroundings: how many nodes were created, which nodes are
  sounding (started and neither stopped nor ended), which nodes still owe their \<^verbatim>\<open>ended\<close>
  event (the browser delivers it once to a node that played to its end or was stopped),
  the items whose node was started, in order, how often the first-audio callback ran, and
  the errors given to \<^verbatim>\<open>console.error\<close>.
\<close>

record audioQueue =
  queue :: "audioQueueItem list"
  isPlaying :: bool
  currentPlayingText :: string
  renderedQueue :: "audioQueueItem list"
  renderedIsPlaying :: bool
  renderedIsUserSpeaking :: bool
  effectsPending :: bool
  audioContextRef :: "audioContext option"
  currentSourceRef :: "nat option"
  hasPlayedFirstAudioRef :: bool
  created :: nat
  sounding :: "nat list"
  awaitingEnded :: "nat list"
  startedItems :: "audioQueueItem list"
  firstAudioCalls :: nat
  playbackErrors :: "error list"

text \<open>
  The state after the first render and its effects: the mount effect has created the
  audio context, and the user is not speaking.
\<close>

definition initAudioQueue :: audioQueue where
  "initAudioQueue = \<lparr> queue = [], isPlaying = False, currentPlayingText = [],
     renderedQueue = [], renderedIsPlaying = False, renderedIsUserSpeaking = False,
     effectsPending = False,
     audioContextRef = Some AudioContext, currentSourceRef = None,
     hasPlayedFirstAudioRef = False, created = 0, sounding = [], awaitingEnded = [],
     startedItems = [], firstAudioCalls = 0, playbackErrors = [] \<rparr>"

text \<open>
  \<^verbatim>\<open>setQueue((prev) => [...prev, item])\<close>: a functional update, applied to the newest queue.
  The item id is built from the clock and a random number: the caller supplies it.
\<close>

definition enqueue :: "string \<Rightarrow> audioBuffer \<Rightarrow> string \<Rightarrow> audioQueue \<Rightarrow> audioQueue" where
  "enqueue ident audio txt s =
     s\<lparr>queue := queue s @ [\<lparr>itemId = ident, itemAudioBuffer = audio, itemText = txt\<rparr>]\<rparr>"

definition resetFirstAudioFlag :: "audioQueue \<Rightarrow> audioQueue" where
  "resetFirstAudioFlag s = s\<lparr>hasPlayedFirstAudioRef := False\<rparr>"

text \<open>
  \<^verbatim>\<open>try { source.stop(); } catch {}\<close>: the node stops sounding; stopping a node that is not
  sounding changes nothing, whether or not the call throws.
\<close>

definition stopSource :: "nat \<Rightarrow> audioQueue \<Rightarrow> audioQueue" where
  "stopSource n s = s\<lparr>sounding := removeAll n (sounding s)\<rparr>"

text \<open>
  The caller's \<^verbatim>\<open>onFirstAudioPlay\<close>, when given, returns or throws. The Web Audio calls of
  the \<^verbatim>\<open>try\<close> block of \<^verbatim>\<open>playNext\<close> can throw as well; which one does, if any, is
  decided outside the code.
\<close>

datatype callback = Returns | Throws

datatype fault = CreateThrows | BufferThrows | ConnectThrows | StartThrows

text \<open>
  The \<^verbatim>\<open>try\<close> block of \<^verbatim>\<open>playNext\<close> after the check of the audio context: the exception that
  leaves it, if any, and the state at that point (writes to refs before the throw stay).
\<close>

definition startPlayback :: "audioQueueItem \<Rightarrow> callback option \<Rightarrow> fault option \<Rightarrow> audioQueue \<Rightarrow> error option \<times> audioQueue" where
  "startPlayback nextItem onFirstAudioPlay flt s =
     (let s1 = (case currentSourceRef s of None \<Rightarrow> s | Some cur \<Rightarrow> stopSource cur s) in
      if flt = Some CreateThrows then (Some AudioNodeError, s1)
      else
        let source = created s1;
            s2 = s1\<lparr>created := Suc (created s1)\<rparr> in
        if flt = Some BufferThrows \<or> flt = Some ConnectThrows then (Some AudioNodeError, s2)
        else
          let s3 = s2\<lparr>currentSourceRef := Some source\<rparr> in
          if flt = Some StartThrows then (Some AudioNodeError, s3)
          else
            let s4 = s3\<lparr>sounding := sounding s3 @ [source],
                        awaitingEnded := awaitingEnded s3 @ [source],
                        startedItems := startedItems s3 @ [nextItem]\<rparr> in
            if hasPlayedFirstAudioRef s4 then (None, s4)
            else case onFirstAudioPlay of
                None \<Rightarrow> (None, s4)
              | Some cb \<Rightarrow>
                  let s5 = s4\<lparr>hasPlayedFirstAudioRef := True,
                              firstAudioCalls := Suc (firstAudioCalls s4)\<rparr> in
                  (case cb of Returns \<Rightarrow> (None, s5) | Throws \<Rightarrow> (Some CallbackError, s5)))"

text \<open>
  \<^verbatim>\<open>playNext\<close> of the last render: \<^verbatim>\<open>isUserSpeaking\<close>, \<^verbatim>\<open>queue\<close> and \<^verbatim>\<open>isPlaying\<close> are the rendered
  values, and \<^verbatim>\<open>setQueue(rest)\<close> writes the rest of the rendered queue over whatever the
  queue has become.
\<close>

definition playNext :: "callback option \<Rightarrow> fault option \<Rightarrow> audioQueue \<Rightarrow> audioQueue" where
  "playNext onFirstAudioPlay flt s =
     (if renderedIsUserSpeaking s then s
      else if renderedQueue s = [] \<or> renderedIsPlaying s then s
      else
        let nextItem = hd (renderedQueue s);
            rest = tl (renderedQueue s);
            s1 = s\<lparr>queue := rest, isPlaying := True, currentPlayingText := itemText nextItem\<rparr> in
        case audioContextRef s1 of
          None \<Rightarrow> s1
        | Some ctx \<Rightarrow>
            (case startPlayback nextItem onFirstAudioPlay flt s1 of
               (None, s2) \<Rightarrow> s2
             | (Some e, s2) \<Rightarrow>
                 s2\<lparr>playbackErrors := playbackErrors s2 @ [e],
                    isPlaying := False, currentPlayingText := []\<rparr>))"

text \<open>The body of the effect ``pause playback if user starts speaking'', its guard passed.\<close>

definition interrupt :: "audioQueue \<Rightarrow> audioQueue" where
  "interrupt s =
     (let s1 = (case currentSourceRef s of
                  None \<Rightarrow> s
                | Some cur \<Rightarrow> (stopSource cur s)\<lparr>currentSourceRef := None\<rparr>) in
      s1\<lparr>isPlaying := False, currentPlayingText := []\<rparr>)"

text \<open>
  The two effects of the last render, in the order the hook declares them. Both guards
  read the rendered values; the state updates they request are applied in order. (React
  skips an effect whose dependencies are those of the render before. Such an effect would
  find its guard false here: had the guard been true at the render before, the effect
  would have run then and changed \<open>queue\<close> or \<open>isPlaying\<close>. So the effects are run at every
  render.)
\<close>

definition runEffects :: "callback option \<Rightarrow> fault option \<Rightarrow> audioQueue \<Rightarrow> audioQueue" where
  "runEffects onFirstAudioPlay flt s =
     (let s1 = (if renderedQueue s \<noteq> [] \<and> \<not> renderedIsPlaying s \<and> \<not> renderedIsUserSpeaking s
                then playNext onFirstAudioPlay flt s else s) in
      if renderedIsUserSpeaking s \<and> renderedIsPlaying s then interrupt s1 else s1)"

text \<open>
  A render with the given speaking signal is committed: it has seen the state as it is
  now, and its effects are due. React runs the effects of a render before it starts the
  next one, so a render waits while effects are pending.
\<close>

definition commitRender :: "bool \<Rightarrow> audioQueue \<Rightarrow> audioQueue" where
  "commitRender isUserSpeaking s =
     (if effectsPending s then s
      else s\<lparr>renderedQueue := queue s, renderedIsPlaying := isPlaying s,
             renderedIsUserSpeaking := isUserSpeaking, effectsPending := True\<rparr>)"

definition flushEffects :: "callback option \<Rightarrow> fault option \<Rightarrow> audioQueue \<Rightarrow> audioQueue" where
  "flushEffects onFirstAudioPlay flt s =
     (if effectsPending s then (runEffects onFirstAudioPlay flt s)\<lparr>effectsPending := False\<rparr> else s)"

text \<open>The \<^verbatim>\<open>onended\<close> handler that \<^verbatim>\<open>playNext\<close> installs on each node.\<close>

definition onended :: "audioQueue \<Rightarrow> audioQueue" where
  "onended s = s\<lparr>isPlaying := False, currentPlayingText := [], currentSourceRef := None\<rparr>"

definition clearQueue :: "audioQueue \<Rightarrow> audioQueue" where
  "clearQueue s =
     (let s1 = (case currentSourceRef s of
                  None \<Rightarrow> s
                | Some cur \<Rightarrow> (stopSource cur s)\<lparr>currentSourceRef := None\<rparr>) in
      s1\<lparr>queue := [], isPlaying := False, currentPlayingText := []\<rparr>)"

text \<open>
  What can happen to a mounted queue: an item is enqueued, a render is committed, the
  effects of the last render run, a node's \<^verbatim>\<open>ended\<close> event is delivered, the queue is
  cleared, the first-audio flag is reset. \<open>Render\<close> is a commit whose effects run at once,
  with nothing in between.
\<close>

datatype queueEvent =
    Enqueue string audioBuffer string
  | Commit bool
  | Effects "fault option"
  | Render bool "fault option"
  | Ended nat
  | ClearQueue
  | ResetFirstAudio

fun queueStep :: "callback option \<Rightarrow> audioQueue \<Rightarrow> queueEvent \<Rightarrow> audioQueue" where
  "queueStep cb s (Enqueue ident audio txt) = enqueue ident audio txt s"
| "queueStep cb s (Commit isUserSpeaking) = commitRender isUserSpeaking s"
| "queueStep cb s (Effects flt) = flushEffects cb flt s"
| "queueStep cb s (Render isUserSpeaking flt) = flushEffects cb flt (commitRender isUserSpeaking s)"
| "queueStep cb s (Ended n) =
     (if n \<in> set (awaitingEnded s)
      then onended (s\<lparr>sounding := removeAll n (sounding s),
                      awaitingEnded := removeAll n (awaitingEnded s)\<rparr>)
      else s)"
| "queueStep cb s ClearQueue = clearQueue s"
| "queueStep cb s ResetFirstAudio = resetFirstAudioFlag s"

definition queueRun :: "callback option \<Rightarrow> audioQueue \<Rightarrow> queueEvent list \<Rightarrow> audioQueue" where
  "queueRun cb s evs = foldl (queueStep cb) s evs"

section \<open>The transcription session: \<^verbatim>\<open>useSpeechToText\<close>\<close>

text \<open>
  A media recorder, a media stream or a web socket held in a ref. Releasing it (\<^verbatim>\<open>stop()\<close>,
  \<^verbatim>\<open>close()\<close>) can throw, for instance a recorder that was never started.
\<close>

datatype resource = Resource (releaseThrows: bool)

text \<open>
  The hook's state and refs; \<open>sttSocketRef\<close> is the hook's \<^verbatim>\<open>socketRef\<close> (the page has a ref
  of the same name). \<open>released\<close> lists the devices whose release call returned, and
  \<open>sttErrors\<close> what went to \<^verbatim>\<open>console.error\<close>.
\<close>

record speechToText =
  currentTranscript :: string
  finalizedTranscripts :: "string list"
  isTranscribing :: bool
  isSpeaking :: bool
  isSpeakingRef :: bool
  sttSocketRef :: "resource option"
  mediaRecorderRef :: "resource option"
  streamRef :: "resource option"
  speechFinalReceivedRef :: bool
  released :: "device list"
  sttErrors :: "error list"

definition initSpeechToText :: speechToText where
  "initSpeechToText = \<lparr> currentTranscript = [], finalizedTranscripts = [],
     isTranscribing = False, isSpeaking = False, isSpeakingRef = False,
     sttSocketRef = None, mediaRecorderRef = None, streamRef = None,
     speechFinalReceivedRef = False, released = [], sttErrors = [] \<rparr>"

definition setSpeaking :: "bool \<Rightarrow> speechToText \<Rightarrow> speechToText" where
  "setSpeaking v s = s\<lparr>isSpeakingRef := v, isSpeaking := v\<rparr>"

text \<open>
  What acquiring the devices gives: the microphone is refused, the recorder cannot be
  built on the stream, the socket cannot be built, or all three exist.
\<close>

datatype startOutcome =
    MicRefused
  | RecorderFails resource
  | SocketFails resource resource
  | Acquired resource resource resource

text \<open>\<^verbatim>\<open>startTranscription\<close>: a failure is logged and thrown again to the caller.\<close>

definition startTranscription :: "startOutcome \<Rightarrow> speechToText \<Rightarrow> error option \<times> speechToText" where
  "startTranscription outcome s =
     (case outcome of
        MicRefused \<Rightarrow> (Some MicrophoneError, s\<lparr>sttErrors := sttErrors s @ [MicrophoneError]\<rparr>)
      | RecorderFails stream \<Rightarrow>
          (Some RecorderError,
           s\<lparr>streamRef := Some stream, sttErrors := sttErrors s @ [RecorderError]\<rparr>)
      | SocketFails stream recorder \<Rightarrow>
          (Some ConnectionError,
           s\<lparr>streamRef := Some stream, mediaRecorderRef := Some recorder,
              sttErrors := sttErrors s @ [ConnectionError]\<rparr>)
      | Acquired stream recorder sock \<Rightarrow>
          (None,
           s\<lparr>streamRef := Some stream, mediaRecorderRef := Some recorder,
              sttSocketRef := Some sock, isTranscribing := True\<rparr>))"

text \<open>
  A message of the transcription service: text that does not parse, the utterance-end
  event, or a result with its transcript (empty when absent), \<^verbatim>\<open>is_final\<close> and
  \<^verbatim>\<open>speech_final\<close>.
\<close>

datatype sttMessage =
    Unparseable
  | UtteranceEnd
  | Results string bool bool

fun onmessage :: "sttMessage \<Rightarrow> speechToText \<Rightarrow> speechToText" where
  "onmessage Unparseable s = s\<lparr>sttErrors := sttErrors s @ [ParseError]\<rparr>"
| "onmessage UtteranceEnd s =
     (let s1 = (if \<not> speechFinalReceivedRef s then setSpeaking False s else s) in
      s1\<lparr>speechFinalReceivedRef := False\<rparr>)"
| "onmessage (Results result isFinal speechFinal) s =
     (if result = [] then s
      else
        let s1 = (if \<not> isSpeakingRef s then setSpeaking True s else s) in
        if isFinal then
          let s2 = s1\<lparr>finalizedTranscripts := finalizedTranscripts s1 @ [result]\<rparr> in
          if speechFinal
          then (setSpeaking False (s2\<lparr>speechFinalReceivedRef := True\<rparr>))\<lparr>currentTranscript := []\<rparr>
          else s2
        else s1\<lparr>currentTranscript := result\<rparr>)"

text \<open>
  One release call of \<^verbatim>\<open>stopTranscription\<close>, \<^verbatim>\<open>ref.current?.stop()\<close>: nothing to do on null,
  an exception when the resource refuses, the device released otherwise.
\<close>

definition release :: "device \<Rightarrow> resource option \<Rightarrow> speechToText \<Rightarrow> error option \<times> speechToText" where
  "release d r s =
     (case r of
        None \<Rightarrow> (None, s)
      | Some res \<Rightarrow>
          if releaseThrows res then (Some (ReleaseError d), s)
          else (None, s\<lparr>released := released s @ [d]\<rparr>))"

text \<open>\<^verbatim>\<open>try { ... } catch {}\<close>: the exception is dropped and the state at the throw is kept.\<close>

definition catchAll :: "error option \<times> 's \<Rightarrow> error option \<times> 's" where
  "catchAll r = (None, snd r)"

text \<open>An exception ends a sequence of statements; otherwise the next statement runs.\<close>

definition andThen :: "error option \<times> 's \<Rightarrow> ('s \<Rightarrow> error option \<times> 's) \<Rightarrow> error option \<times> 's" where
  "andThen r f = (case fst r of Some e \<Rightarrow> r | None \<Rightarrow> f (snd r))"

definition stopTranscription :: "speechToText \<Rightarrow> error option \<times> speechToText" where
  "stopTranscription s =
     andThen (catchAll (release Recorder (mediaRecorderRef s) s)) (\<lambda>s1.
     andThen (catchAll (release Tracks (streamRef s1) s1)) (\<lambda>s2.
     andThen (catchAll (release WebSocket (sttSocketRef s2) s2)) (\<lambda>s3.
       (None,
        (setSpeaking False
           (s3\<lparr>mediaRecorderRef := None, streamRef := None, sttSocketRef := None\<rparr>))
        \<lparr>speechFinalReceivedRef := False, isTranscribing := False,
         currentTranscript := []\<rparr>))))"

text \<open>\<^verbatim>\<open>toggleTranscription\<close> as built in a render whose \<open>isTranscribing\<close> was the given value.\<close>

definition toggleTranscription :: "bool \<Rightarrow> startOutcome \<Rightarrow> speechToText \<Rightarrow> error option \<times> speechToText" where
  "toggleTranscription renderedIsTranscribing outcome s =
     (if renderedIsTranscribing then stopTranscription s else startTranscription outcome s)"

section \<open>The interview page\<close>

datatype socket = Socket (connected: bool)

datatype clientEvent = StartInterview | UserResponse string

text \<open>
  What \<^verbatim>\<open>processTextBuffer\<close> and the handlers around it do to the buffer refs and to the
  synthesizer and the queue, in the order they do it.
\<close>

datatype action =
    SetProcessing bool
  | SetBuffer string
  | SetPendingFlush bool
  | CallTts string
  | CallEnqueue string

text \<open>
  The refs and state of \<^verbatim>\<open>InterviewPage\<close> with the two hooks it uses. \<open>mounted\<close> is the
  variable of the socket effect. The other fields are the page's surroundings:
  \<open>inflight\<close> holds the texts of the \<^verbatim>\<open>textToAudioBuffer\<close> calls that have not settled yet,
  oldest first; \<open>heldBack\<close> holds, for each of them, the exception that the calls of
  \<^verbatim>\<open>processTextBuffer\<close> waiting for it in their \<^verbatim>\<open>finally\<close> blocks will throw when it
  returns normally (\<^term>\<open>None\<close> when they hold none); \<open>unhandledRejections\<close> the
  exceptions that reached a socket handler, none of which catches;
  \<open>emitted\<close> the events sent to the server; \<open>timers\<close> the pending
  \<^verbatim>\<open>setTimeout\<close> calls (delay in milliseconds and the route to push); \<open>trace\<close> the
  actions so far.
\<close>

record page =
  callActive :: bool
  socketRef :: "socket option"
  lastTranscriptRef :: string
  textBufferRef :: string
  isProcessingRef :: bool
  pendingFlushRef :: bool
  stt :: speechToText
  aq :: audioQueue
  mounted :: bool
  inflight :: "string list"
  heldBack :: "error option list"
  unhandledRejections :: "error list"
  emitted :: "clientEvent list"
  timers :: "(nat \<times> string) list"
  trace :: "action list"

text \<open>The page once the socket effect has connected and registered its handlers.\<close>

definition initPage :: page where
  "initPage = \<lparr> callActive = False, socketRef = Some (Socket True), lastTranscriptRef = [],
     textBufferRef = [], isProcessingRef = False, pendingFlushRef = False,
     stt = initSpeechToText, aq = initAudioQueue, mounted = True, inflight = [],
     heldBack = [], unhandledRejections = [], emitted = [], timers = [], trace = [] \<rparr>"

definition setProcessing :: "bool \<Rightarrow> page \<Rightarrow> page" where
  "setProcessing b s = s\<lparr>isProcessingRef := b, trace := trace s @ [SetProcessing b]\<rparr>"

definition setBuffer :: "string \<Rightarrow> page \<Rightarrow> page" where
  "setBuffer b s = s\<lparr>textBufferRef := b, trace := trace s @ [SetBuffer b]\<rparr>"

definition setPendingFlush :: "bool \<Rightarrow> page \<Rightarrow> page" where
  "setPendingFlush b s = s\<lparr>pendingFlushRef := b, trace := trace s @ [SetPendingFlush b]\<rparr>"

text \<open>
  The call \<^verbatim>\<open>textToAudioBuffer(textToConvert)\<close> is issued; its promise is pending. The call
  of \<^verbatim>\<open>processTextBuffer\<close> that issued it holds no exception.
\<close>

definition callTts :: "string \<Rightarrow> page \<Rightarrow> page" where
  "callTts t s = s\<lparr>inflight := inflight s @ [t], heldBack := heldBack s @ [None],
                  trace := trace s @ [CallTts t]\<rparr>"

definition callEnqueue :: "string \<Rightarrow> audioBuffer \<Rightarrow> string \<Rightarrow> page \<Rightarrow> page" where
  "callEnqueue ident audio t s =
     s\<lparr>aq := enqueue ident audio t (aq s), trace := trace s @ [CallEnqueue t]\<rparr>"

text \<open>
  \<^verbatim>\<open>processTextBuffer(forceFlush)\<close> from its entry to its first suspension: it returns at
  once, or it takes a batch and stops at \<^verbatim>\<open>await textToAudioBuffer(textToConvert)\<close>.
\<close>

definition processTextBuffer :: "bool \<Rightarrow> page \<Rightarrow> page" where
  "processTextBuffer forceFlush s =
     (if isProcessingRef s then (if forceFlush then setPendingFlush True s else s)
      else
        let currentBuffer = textBufferRef s;
            wordCount = countWords currentBuffer in
        if 20 \<le> wordCount \<or> (forceFlush \<and> 0 < wordCount) then
          let s1 = setProcessing True s;
              extracted = (if \<not> forceFlush \<and> 20 \<le> wordCount
                           then extractFirstNWords currentBuffer 20
                           else (currentBuffer, []));
              textToConvert = fst extracted;
              remainder = snd extracted;
              s2 = setBuffer remainder s1 in
          callTts textToConvert s2
        else s)"

text \<open>
  The rest of that call, run when the pending synthesis number \<open>i\<close> settles with the given
  outcome: the \<^verbatim>\<open>enqueue\<close> on success, then the \<^verbatim>\<open>finally\<close> block. There is no \<^verbatim>\<open>catch\<close>.

  The \<^verbatim>\<open>finally\<close> block awaits its recursive call, so an exception of the \<^verbatim>\<open>try\<close> block is
  held back until that call has returned, and the calls that wait for this one hold
  theirs likewise. \<open>thrown\<close> is the exception this chain of calls will throw if nothing
  later fails: the one of this synthesis, else the one held by the waiting calls (a
  later exception replaces an earlier one). When the recursive call has started a
  synthesis (it has set \<open>isProcessingRef\<close>) the chain waits on, holding \<open>thrown\<close>. Otherwise
  the chain ends here and \<open>thrown\<close> reaches the socket handler that started it. The first
  component is the exception that leaves the chain at this settlement.
\<close>

definition processTextBuffer_resume :: "nat \<Rightarrow> fetchOutcome \<Rightarrow> string \<Rightarrow> page \<Rightarrow> error option \<times> page" where
  "processTextBuffer_resume i outcome ident s =
     (let textToConvert = inflight s ! i;
          outer = heldBack s ! i;
          s0 = s\<lparr>inflight := take i (inflight s) @ drop (Suc i) (inflight s),
                 heldBack := take i (heldBack s) @ drop (Suc i) (heldBack s)\<rparr>;
          result = textToAudioBuffer outcome textToConvert;
          s1 = (case result of
                  Inl e \<Rightarrow> s0
                | Inr audio \<Rightarrow> callEnqueue ident audio textToConvert s0);
          s2 = setProcessing False s1;
          s3 = (if pendingFlushRef s2 then processTextBuffer True (setPendingFlush False s2)
                else if 20 \<le> countWords (textBufferRef s2) then processTextBuffer False s2
                else s2);
          thrown = (case result of Inl e \<Rightarrow> Some e | Inr audio \<Rightarrow> outer) in
      if isProcessingRef s3
      then (None, s3\<lparr>heldBack := butlast (heldBack s3) @ [thrown]\<rparr>)
      else (thrown,
            s3\<lparr>unhandledRejections := unhandledRejections s3 @
                   (case thrown of None \<Rightarrow> [] | Some e \<Rightarrow> [e])\<rparr>))"

text \<open>The socket handlers \<^verbatim>\<open>text_chunk\<close> and \<^verbatim>\<open>text_complete\<close>.\<close>

definition text_chunk :: "string \<Rightarrow> page \<Rightarrow> page" where
  "text_chunk chunk s =
     (if \<not> mounted s then s
      else processTextBuffer False (setBuffer (textBufferRef s @ chunk) s))"

definition text_complete :: "page \<Rightarrow> page" where
  "text_complete s = (if \<not> mounted s then s else processTextBuffer True s)"

text \<open>
  The handler \<^verbatim>\<open>interview_completed\<close>. The socket effect depends on \<open>interviewId\<close> only, so
  the handler reads the \<open>isTranscribing\<close> and the \<^verbatim>\<open>toggleTranscription\<close> of the render in
  which the effect ran: that rendered value is the first argument. The second is what
  acquiring the devices would give, should the toggle start a session.
\<close>

definition interview_completed :: "bool \<Rightarrow> startOutcome \<Rightarrow> page \<Rightarrow> page" where
  "interview_completed renderedIsTranscribing outcome s =
     (if \<not> mounted s then s
      else
        let s1 = (if renderedIsTranscribing
                  then s\<lparr>stt := snd (toggleTranscription renderedIsTranscribing outcome (stt s))\<rparr>
                  else s);
            s2 = s1\<lparr>callActive := False\<rparr>;
            s3 = s2\<lparr>aq := clearQueue (aq s2)\<rparr>;
            s4 = s3\<lparr>socketRef := map_option (\<lambda>sock. Socket False) (socketRef s3)\<rparr> in
        s4\<lparr>timers := timers s4 @ [(2000, ''/dashboard'')]\<rparr>)"

text \<open>The three assignments that several handlers share.\<close>

definition resetBuffer :: "page \<Rightarrow> page" where
  "resetBuffer s = setPendingFlush False (setProcessing False (setBuffer [] s))"

text \<open>The effect ``send transcript when user stops speaking''.\<close>

definition sendTranscriptEffect :: "page \<Rightarrow> page" where
  "sendTranscriptEffect s =
     (if \<not> isSpeaking (stt s) \<and> finalizedTranscripts (stt s) \<noteq> []
         \<and> socketRef s \<noteq> None \<and> connected (the (socketRef s))
      then
        let combinedTranscript = joinSp (finalizedTranscripts (stt s));
            s1 = s\<lparr>stt := (stt s)\<lparr>finalizedTranscripts := []\<rparr>\<rparr> in
        if combinedTranscript \<noteq> [] \<and> combinedTranscript \<noteq> lastTranscriptRef s1 then
          let s2 = resetBuffer s1;
              s3 = s2\<lparr>aq := resetFirstAudioFlag (aq s2)\<rparr>;
              s4 = s3\<lparr>emitted := emitted s3 @ [UserResponse combinedTranscript]\<rparr> in
          s4\<lparr>lastTranscriptRef := combinedTranscript\<rparr>
        else s1
      else s)"

definition emitStart :: "page \<Rightarrow> page" where
  "emitStart s =
     (if socketRef s \<noteq> None \<and> connected (the (socketRef s))
      then s\<lparr>emitted := emitted s @ [StartInterview]\<rparr> else s)"

text \<open>
  \<^verbatim>\<open>startCall\<close>: when starting the transcription throws, the call ends there with that
  exception.
\<close>

definition startCall :: "startOutcome \<Rightarrow> page \<Rightarrow> error option \<times> page" where
  "startCall outcome s =
     andThen
       (if \<not> isTranscribing (stt s)
        then (let r = toggleTranscription (isTranscribing (stt s)) outcome (stt s)
              in (fst r, s\<lparr>stt := snd r\<rparr>))
        else (None, s))
       (\<lambda>s1. (None, emitStart (resetBuffer (s1\<lparr>callActive := True\<rparr>))))"


text \<open>
  What the server and the synthesizer can do to a mounted page: a text chunk arrives, the
  text is complete, the pending synthesis number \<open>i\<close> settles.
\<close>

datatype bufferEvent =
    TextChunk string
  | TextComplete
  | TtsSettled nat fetchOutcome string

fun bufferStep :: "page \<Rightarrow> bufferEvent \<Rightarrow> page" where
  "bufferStep s (TextChunk chunk) = text_chunk chunk s"
| "bufferStep s TextComplete = text_complete s"
| "bufferStep s (TtsSettled i outcome ident) =
     (if i < length (inflight s) then snd (processTextBuffer_resume i outcome ident s) else s)"

definition bufferRun :: "page \<Rightarrow> bufferEvent list \<Rightarrow> page" where
  "bufferRun s evs = foldl bufferStep s evs"

section \<open>Reading aids for the properties\<close>

text \<open>
  The mutual exclusion of the buffer: the flag \<open>isProcessingRef\<close> is set exactly while one
  synthesis is pending, and none is pending otherwise.
\<close>

definition lockInv :: "page \<Rightarrow> bool" where
  "lockInv s = (length (inflight s) = (if isProcessingRef s then 1 else 0))"

text \<open>Events that do not settle a synthesis, and the text such an event appends.\<close>

fun noSettle :: "bufferEvent \<Rightarrow> bool" where
  "noSettle (TtsSettled i outcome ident) = False"
| "noSettle ev = True"

fun chunkText :: "bufferEvent \<Rightarrow> string" where
  "chunkText (TextChunk chunk) = chunk"
| "chunkText ev = []"

text \<open>The texts handed to the synthesizer so far, oldest first.\<close>

fun ttsCall :: "action \<Rightarrow> string list" where
  "ttsCall (CallTts t) = [t]"
| "ttsCall a = []"

definition ttsCalls :: "page \<Rightarrow> string list" where
  "ttsCalls s = concat (map ttsCall (trace s))"






text \<open>The invariant of the specification: \<open>isPlaying\<close> exactly when a playback handle is held.\<close>

definition handleInv :: "audioQueue \<Rightarrow> bool" where
  "handleInv s = (isPlaying s = (currentSourceRef s \<noteq> None))"

text \<open>
  What every state of the playback queue satisfies: the audio context exists, the handle
  names a node that was created, and without a handle the queue is not playing.
\<close>

definition queueInv :: "audioQueue \<Rightarrow> bool" where
  "queueInv s =
     (audioContextRef s \<noteq> None \<and>
      (case currentSourceRef s of None \<Rightarrow> \<not> isPlaying s | Some a \<Rightarrow> a < created s))"

text \<open>The device a release call frees: none for a null ref or a resource that refuses.\<close>

definition releasable :: "device \<Rightarrow> resource option \<Rightarrow> device list" where
  "releasable d r = (case r of None \<Rightarrow> [] | Some res \<Rightarrow> if releaseThrows res then [] else [d])"

section \<open>Concrete inputs\<close>

definition words20 :: string where
  "words20 = ''a b c d e f g h i j k l m n o p q r s t''"

definition words25 :: string where
  "words25 = ''  a b c d e f g h i j k l m n o p q r s t  u v w x y ''"

text \<open>
  Twenty words arrive and their synthesis starts; twenty-five more arrive while it is
  pending.
\<close>

definition busyPage :: page where
  "busyPage = bufferRun initPage [TextChunk words20, TextChunk words25]"

text \<open>Twenty words have arrived and their synthesis is pending; the buffer is empty.\<close>

definition pendingPage :: page where
  "pendingPage = bufferRun initPage [TextChunk words20]"

definition okOutcome :: fetchOutcome where
  "okOutcome = Response True 200 ''OK'' (Some (AudioBuffer 7))"

text \<open>Three items; in \<open>playingA\<close> the first is playing and two are queued.\<close>

definition itemA :: queueEvent where "itemA = Enqueue ''audio_1'' (AudioBuffer 1) ''Hello.''"
definition itemB :: queueEvent where "itemB = Enqueue ''audio_2'' (AudioBuffer 2) ''How are you?''"
definition itemC :: queueEvent where "itemC = Enqueue ''audio_3'' (AudioBuffer 3) ''Shall we start?''"

definition playingA :: audioQueue where
  "playingA = queueRun None initAudioQueue [itemA, itemB, itemC, Render False None]"



text \<open>
  Devices whose recorder refuses to stop; a session in which one final transcript has
  arrived and the utterance goes on; a page with a running call; that page after the
  answer ``I agree'' was sent; and the same after the call was stopped and started again.
\<close>

definition devices :: startOutcome where
  "devices = Acquired (Resource False) (Resource True) (Resource False)"

definition midUtterance :: speechToText where
  "midUtterance = onmessage (Results ''I think'' True False)
                    (snd (startTranscription devices initSpeechToText))"

definition activePage :: page where
  "activePage = snd (startCall devices initPage)"



text \<open>A page with a running call in which the first of three items is playing.\<close>

definition playingPage :: page where
  "playingPage = activePage\<lparr>aq := playingA\<rparr>"

chapter \<open>Properties\<close>

section \<open>Words: the code's splitting against the specification's words\<close>

lemma wordsOf_Nil [simp]: "wordsOf [] = []"
  by (simp add: wordsOf.simps)

lemma wordsOf_space [simp]: "isSpace c \<Longrightarrow> wordsOf (c # cs) = wordsOf cs"
  by (subst wordsOf.simps, subst (2) wordsOf.simps) simp

lemma wordsOf_nonspace:
  "\<not> isSpace c \<Longrightarrow> wordsOf (c # cs) =
     (c # takeWhile (\<lambda>c. \<not> isSpace c) cs) # wordsOf (dropWhile (\<lambda>c. \<not> isSpace c) cs)"
  by (subst wordsOf.simps) simp

lemma splitWs_not_Nil [simp]: "splitWs x \<noteq> []"
  by (induction x) (auto split: list.splits)

lemma splitWs_hd: "hd (splitWs x) = takeWhile (\<lambda>c. \<not> isSpace c) x"
proof (induction x)
  case Nil
  show ?case by simp
next
  case (Cons c cs)
  then show ?case
    by (cases cs) (auto split: list.splits)
qed

lemma splitWs_words_aux:
  "filter (\<lambda>w. w \<noteq> []) (splitWs x) = wordsOf x \<and>
   filter (\<lambda>w. w \<noteq> []) (tl (splitWs x)) = wordsOf (dropWhile (\<lambda>c. \<not> isSpace c) x)"
proof (induction x)
  case Nil
  show ?case by simp
next
  case (Cons c cs)
  show ?case
  proof (cases "isSpace c")
    case True
    then show ?thesis using Cons
      by (cases cs) auto
  next
    case False
    obtain w ws where sp: "splitWs cs = w # ws"
      by (cases "splitWs cs") auto
    have w: "w = takeWhile (\<lambda>c. \<not> isSpace c) cs"
      using splitWs_hd [of cs] sp by simp
    show ?thesis using False Cons sp w
      by (simp add: wordsOf_nonspace)
  qed
qed

lemma filter_splitWs: "filter (\<lambda>w. w \<noteq> []) (splitWs x) = wordsOf x"
  using splitWs_words_aux by blast

lemma wordsOf_dropWhile [simp]: "wordsOf (dropWhile isSpace x) = wordsOf x"
  by (induction x) auto

lemma wordsOf_spaces: "\<forall>c\<in>set ws. isSpace c \<Longrightarrow> wordsOf ws = []"
  by (induction ws) auto

lemma takeWhile_spaces: "\<forall>c\<in>set ws. isSpace c \<Longrightarrow> takeWhile (\<lambda>c. \<not> isSpace c) ws = []"
  by (cases ws) auto

lemma dropWhile_spaces: "\<forall>c\<in>set ws. isSpace c \<Longrightarrow> dropWhile (\<lambda>c. \<not> isSpace c) ws = ws"
  by (cases ws) auto

lemma wordsOf_append_spaces:
  "\<forall>c\<in>set ws. isSpace c \<Longrightarrow> wordsOf (x @ ws) = wordsOf x"
proof (induction "length x" arbitrary: x rule: less_induct)
  case less
  show ?case
  proof (cases x)
    case Nil
    then show ?thesis using less.prems by (simp add: wordsOf_spaces)
  next
    case (Cons c cs)
    show ?thesis
    proof (cases "isSpace c")
      case True
      then show ?thesis using Cons less by simp
    next
      case False
      show ?thesis
      proof (cases "\<forall>d\<in>set cs. \<not> isSpace d")
        case True
        have a: "takeWhile (\<lambda>c. \<not> isSpace c) (cs @ ws) = cs"
          using True less.prems by (simp add: takeWhile_spaces)
        have b: "dropWhile (\<lambda>c. \<not> isSpace c) (cs @ ws) = ws"
          using True less.prems by (simp add: dropWhile_spaces)
        have c: "takeWhile (\<lambda>c. \<not> isSpace c) cs = cs"
          using True by simp
        have d: "dropWhile (\<lambda>c. \<not> isSpace c) cs = []"
          using True by simp
        show ?thesis using False Cons less.prems
          by (simp add: wordsOf_nonspace wordsOf_spaces a b c d)
      next
        case ex: False
        then obtain d where d: "d \<in> set cs" "\<not> (\<not> isSpace d)" by blast
        have t: "takeWhile (\<lambda>c. \<not> isSpace c) (cs @ ws) = takeWhile (\<lambda>c. \<not> isSpace c) cs"
          using d by (rule takeWhile_append1)
        have dd: "dropWhile (\<lambda>c. \<not> isSpace c) (cs @ ws) = dropWhile (\<lambda>c. \<not> isSpace c) cs @ ws"
          using d by (rule dropWhile_append1)
        have "length (dropWhile (\<lambda>c. \<not> isSpace c) cs) < length x"
          using Cons by (simp add: length_dropWhile_le less_Suc_eq_le)
        then have "wordsOf (dropWhile (\<lambda>c. \<not> isSpace c) cs @ ws) = wordsOf (dropWhile (\<lambda>c. \<not> isSpace c) cs)"
          using less by blast
        then show ?thesis using False Cons t dd
          by (simp add: wordsOf_nonspace)
      qed
    qed
  qed
qed

lemma wordsOf_trim: "wordsOf (trim t) = wordsOf t"
proof -
  let ?u = "dropWhile isSpace t"
  have "?u = rev (dropWhile isSpace (rev ?u)) @ rev (takeWhile isSpace (rev ?u))"
    by (metis rev_append rev_rev_ident takeWhile_dropWhile_id)
  moreover have "\<forall>c\<in>set (rev (takeWhile isSpace (rev ?u))). isSpace c"
    by (auto dest: set_takeWhileD)
  ultimately have "wordsOf ?u = wordsOf (rev (dropWhile isSpace (rev ?u)))"
    by (metis wordsOf_append_spaces)
  then show ?thesis by (simp add: trim_def)
qed

lemma countWords_wordsOf: "countWords t = length (wordsOf t)"
  by (simp add: countWords_def filter_splitWs wordsOf_trim)

lemma splitWs_no_empty_aux:
  "x \<noteq> [] \<Longrightarrow> \<not> isSpace (last x) \<Longrightarrow>
     [] \<notin> set (tl (splitWs x)) \<and> (\<not> isSpace (hd x) \<longrightarrow> [] \<notin> set (splitWs x))"
proof (induction x)
  case Nil
  then show ?case by simp
next
  case (Cons c cs)
  show ?case
  proof (cases cs)
    case Nil
    then show ?thesis using Cons.prems by simp
  next
    case (Cons d ds)
    then have ih: "[] \<notin> set (tl (splitWs cs))" "\<not> isSpace (hd cs) \<Longrightarrow> [] \<notin> set (splitWs cs)"
      using Cons.IH Cons.prems by auto
    obtain w ws where sp: "splitWs cs = w # ws"
      by (cases "splitWs cs") auto
    show ?thesis using ih sp Cons by auto
  qed
qed

lemma trim_last: "trim t \<noteq> [] \<Longrightarrow> \<not> isSpace (last (trim t))"
  unfolding trim_def by (simp add: last_rev hd_dropWhile)

lemma trim_hd: "trim t \<noteq> [] \<Longrightarrow> \<not> isSpace (hd (trim t))"
proof -
  assume ne: "trim t \<noteq> []"
  let ?u = "dropWhile isSpace t"
  have u: "?u = trim t @ rev (takeWhile isSpace (rev ?u))"
    unfolding trim_def by (metis rev_append rev_rev_ident takeWhile_dropWhile_id)
  have "?u \<noteq> []"
  proof
    assume e: "?u = []"
    have "trim t = []" by (simp add: trim_def e)
    with ne show False by simp
  qed
  then have "\<not> isSpace (hd ?u)" by (rule hd_dropWhile)
  moreover have "hd ?u = hd (trim t)" using u ne by (metis hd_append2)
  ultimately show ?thesis by simp
qed

lemma splitWs_trim_words: "trim t \<noteq> [] \<Longrightarrow> splitWs (trim t) = wordsOf t"
proof -
  assume ne: "trim t \<noteq> []"
  then have "[] \<notin> set (splitWs (trim t))"
    using splitWs_no_empty_aux [of "trim t"] trim_hd trim_last by blast
  then have "filter (\<lambda>w. w \<noteq> []) (splitWs (trim t)) = splitWs (trim t)"
    by (metis (mono_tags, lifting) filter_True)
  then show ?thesis by (simp add: filter_splitWs wordsOf_trim)
qed

lemma countWords_pos_trim: "0 < countWords t \<Longrightarrow> trim t \<noteq> []"
  by (auto simp: countWords_def)

lemma countWords_zero_trim: "countWords t = 0 \<longleftrightarrow> trim t = []"
proof
  assume "countWords t = 0"
  show "trim t = []"
  proof (rule ccontr)
    assume ne: "trim t \<noteq> []"
    then have "splitWs (trim t) = wordsOf t" by (rule splitWs_trim_words)
    then have "wordsOf t \<noteq> []" by (metis splitWs_not_Nil)
    then show False using \<open>countWords t = 0\<close> by (simp add: countWords_wordsOf)
  qed
next
  assume "trim t = []"
  then show "countWords t = 0" by (simp add: countWords_def)
qed

lemma extractFirstNWords_words:
  "0 < countWords t \<Longrightarrow>
     extractFirstNWords t n = (joinSp (take n (wordsOf t)), joinSp (drop n (wordsOf t)))"
  by (simp add: extractFirstNWords_def Let_def splitWs_trim_words countWords_pos_trim)

section \<open>The text-chunk buffer\<close>

lemmas setter_defs = setProcessing_def setBuffer_def setPendingFlush_def callTts_def callEnqueue_def

lemma processTextBuffer_busy:
  "isProcessingRef s \<Longrightarrow> processTextBuffer force s = (if force then setPendingFlush True s else s)"
  by (simp add: processTextBuffer_def)

lemma processTextBuffer_skip:
  "\<not> isProcessingRef s \<Longrightarrow> countWords (textBufferRef s) < 20 \<Longrightarrow>
   \<not> (force \<and> 0 < countWords (textBufferRef s)) \<Longrightarrow> processTextBuffer force s = s"
  by (auto simp add: processTextBuffer_def Let_def)

lemma processTextBuffer_first20:
  "\<not> isProcessingRef s \<Longrightarrow> 20 \<le> countWords (textBufferRef s) \<Longrightarrow>
   processTextBuffer False s =
     callTts (joinSp (take 20 (wordsOf (textBufferRef s))))
       (setBuffer (joinSp (drop 20 (wordsOf (textBufferRef s)))) (setProcessing True s))"
  by (simp add: processTextBuffer_def Let_def extractFirstNWords_words)

lemma processTextBuffer_all:
  "\<not> isProcessingRef s \<Longrightarrow> 0 < countWords (textBufferRef s) \<Longrightarrow>
   processTextBuffer True s = callTts (textBufferRef s) (setBuffer [] (setProcessing True s))"
  by (simp add: processTextBuffer_def Let_def)

text \<open>
  C1 (as amended). When no conversion is in flight: a non-forced flush of a buffer that holds
  at least 20 words hands exactly the first 20 words, joined with single spaces, to the
  synthesizer, and writes the remaining words, joined with single spaces, back as the new
  buffer; a forced flush of a buffer with at least one word hands over the whole buffer
  text as one batch and leaves the buffer empty.
\<close>

theorem processTextBuffer_batch:
  assumes "\<not> isProcessingRef s"
  shows "(20 \<le> length (wordsOf (textBufferRef s)) \<longrightarrow>
            inflight (processTextBuffer False s) =
              inflight s @ [joinSp (take 20 (wordsOf (textBufferRef s)))] \<and>
            textBufferRef (processTextBuffer False s) =
              joinSp (drop 20 (wordsOf (textBufferRef s)))) \<and>
         (0 < length (wordsOf (textBufferRef s)) \<longrightarrow>
            inflight (processTextBuffer True s) = inflight s @ [textBufferRef s] \<and>
            textBufferRef (processTextBuffer True s) = [])"
  using assms
  by (simp add: processTextBuffer_first20 processTextBuffer_all countWords_wordsOf setter_defs)

text \<open>The buffer holds 25 words and nothing is in flight.\<close>

theorem processTextBuffer_batch_witness:
  "\<not> isProcessingRef (initPage\<lparr>textBufferRef := words25\<rparr>) \<and>
   20 \<le> length (wordsOf (textBufferRef (initPage\<lparr>textBufferRef := words25\<rparr>))) \<and>
   inflight (processTextBuffer False (initPage\<lparr>textBufferRef := words25\<rparr>)) = [words20] \<and>
   textBufferRef (processTextBuffer False (initPage\<lparr>textBufferRef := words25\<rparr>)) = ''u v w x y'' \<and>
   inflight (processTextBuffer True (initPage\<lparr>textBufferRef := words25\<rparr>)) = [words25] \<and>
   textBufferRef (processTextBuffer True (initPage\<lparr>textBufferRef := words25\<rparr>)) = []"
proof -
  let ?s = "initPage\<lparr>textBufferRef := words25\<rparr>"
  have idle: "\<not> isProcessingRef ?s" by (simp add: initPage_def)
  have w: "wordsOf (textBufferRef ?s) = [''a'', ''b'', ''c'', ''d'', ''e'', ''f'', ''g'', ''h'', ''i'', ''j'',
      ''k'', ''l'', ''m'', ''n'', ''o'', ''p'', ''q'', ''r'', ''s'', ''t'', ''u'', ''v'', ''w'', ''x'', ''y'']"
    by code_simp
  have i: "inflight ?s = []" by (simp add: initPage_def)
  show ?thesis
    using processTextBuffer_batch [OF idle] idle
    unfolding w i by (simp add: words20_def words25_def)
qed

text \<open>
  C1 as stated speaks of every buffer state. While a conversion is in flight a non-forced
  flush returns at its guard: with 25 words in the buffer nothing is converted and the
  buffer stays as it is.
\<close>

theorem processTextBuffer_busy_counterexample:
  "20 \<le> length (wordsOf (textBufferRef busyPage)) \<and>
   inflight (processTextBuffer False busyPage) = inflight busyPage \<and>
   textBufferRef (processTextBuffer False busyPage) = textBufferRef busyPage \<and>
   textBufferRef busyPage \<noteq> joinSp (drop 20 (wordsOf (textBufferRef busyPage)))"
  by code_simp

lemma lockInv_processTextBuffer: "lockInv s \<Longrightarrow> lockInv (processTextBuffer force s)"
  by (auto simp add: lockInv_def processTextBuffer_def Let_def setter_defs)

lemma lockInv_text_chunk: "lockInv s \<Longrightarrow> lockInv (text_chunk chunk s)"
proof -
  assume inv: "lockInv s"
  then have "lockInv (setBuffer (textBufferRef s @ chunk) s)"
    by (simp add: lockInv_def setBuffer_def)
  then show ?thesis using inv
    by (simp add: text_chunk_def lockInv_processTextBuffer)
qed

lemma lockInv_text_complete: "lockInv s \<Longrightarrow> lockInv (text_complete s)"
  by (simp add: text_complete_def lockInv_processTextBuffer)

lemma resume_core:
  "\<exists>h u. snd (processTextBuffer_resume i outcome ident s) =
     (let s0 = s\<lparr>inflight := take i (inflight s) @ drop (Suc i) (inflight s),
                 heldBack := take i (heldBack s) @ drop (Suc i) (heldBack s)\<rparr>;
          s1 = (case textToAudioBuffer outcome (inflight s ! i) of
                  Inl e \<Rightarrow> s0
                | Inr audio \<Rightarrow> callEnqueue ident audio (inflight s ! i) s0);
          s2 = setProcessing False s1
      in if pendingFlushRef s2 then processTextBuffer True (setPendingFlush False s2)
         else if 20 \<le> countWords (textBufferRef s2) then processTextBuffer False s2
         else s2)\<lparr>heldBack := h, unhandledRejections := u\<rparr>"
proof -
  define s3 where "s3 =
     (let s0 = s\<lparr>inflight := take i (inflight s) @ drop (Suc i) (inflight s),
                 heldBack := take i (heldBack s) @ drop (Suc i) (heldBack s)\<rparr>;
          s1 = (case textToAudioBuffer outcome (inflight s ! i) of
                  Inl e \<Rightarrow> s0
                | Inr audio \<Rightarrow> callEnqueue ident audio (inflight s ! i) s0);
          s2 = setProcessing False s1
      in if pendingFlushRef s2 then processTextBuffer True (setPendingFlush False s2)
         else if 20 \<le> countWords (textBufferRef s2) then processTextBuffer False s2
         else s2)"
  define thrown where "thrown =
     (case textToAudioBuffer outcome (inflight s ! i) of Inl e \<Rightarrow> Some e | Inr audio \<Rightarrow> heldBack s ! i)"
  have eq: "processTextBuffer_resume i outcome ident s =
     (if isProcessingRef s3
      then (None, s3\<lparr>heldBack := butlast (heldBack s3) @ [thrown]\<rparr>)
      else (thrown,
            s3\<lparr>unhandledRejections := unhandledRejections s3 @
                   (case thrown of None \<Rightarrow> [] | Some e \<Rightarrow> [e])\<rparr>))"
    by (simp only: processTextBuffer_resume_def Let_def s3_def thrown_def)
  have "\<exists>h u. snd (processTextBuffer_resume i outcome ident s) =
          s3\<lparr>heldBack := h, unhandledRejections := u\<rparr>"
  proof (cases "isProcessingRef s3")
    case True
    then have "snd (processTextBuffer_resume i outcome ident s) =
        s3\<lparr>heldBack := butlast (heldBack s3) @ [thrown],
           unhandledRejections := unhandledRejections s3\<rparr>"
      by (simp add: eq)
    then show ?thesis by blast
  next
    case False
    then have "snd (processTextBuffer_resume i outcome ident s) =
        s3\<lparr>heldBack := heldBack s3,
           unhandledRejections := unhandledRejections s3 @
             (case thrown of None \<Rightarrow> [] | Some e \<Rightarrow> [e])\<rparr>"
      by (simp add: eq)
    then show ?thesis by blast
  qed
  then show ?thesis unfolding s3_def .
qed

lemma lockInv_fields [simp]:
  "lockInv (s\<lparr>heldBack := h, unhandledRejections := u\<rparr>) = lockInv s"
  by (simp add: lockInv_def)

lemma lockInv_resume:
  assumes "lockInv s" and "i < length (inflight s)"
  shows "lockInv (snd (processTextBuffer_resume i outcome ident s))"
proof -
  from assms have one: "length (inflight s) = 1" and i: "i = 0"
    by (auto simp add: lockInv_def split: if_splits)
  define s0 where "s0 = s\<lparr>inflight := take i (inflight s) @ drop (Suc i) (inflight s),
                         heldBack := take i (heldBack s) @ drop (Suc i) (heldBack s)\<rparr>"
  define s1 where "s1 = (case textToAudioBuffer outcome (inflight s ! i) of
                  Inl e \<Rightarrow> s0
                | Inr audio \<Rightarrow> callEnqueue ident audio (inflight s ! i) s0)"
  have "inflight s0 = []" using one i by (simp add: s0_def)
  then have "inflight s1 = []" by (simp add: s1_def callEnqueue_def split: sum.splits)
  then have a: "lockInv (setProcessing False s1)"
    by (simp add: lockInv_def setProcessing_def)
  then have b: "lockInv (setPendingFlush False (setProcessing False s1))"
    by (simp add: lockInv_def setPendingFlush_def)
  obtain h u where "snd (processTextBuffer_resume i outcome ident s) =
     (if pendingFlushRef (setProcessing False s1)
      then processTextBuffer True (setPendingFlush False (setProcessing False s1))
      else if 20 \<le> countWords (textBufferRef (setProcessing False s1))
           then processTextBuffer False (setProcessing False s1)
           else setProcessing False s1)\<lparr>heldBack := h, unhandledRejections := u\<rparr>"
    using resume_core [of i outcome ident s]
    by (simp only: Let_def s1_def s0_def) (elim exE)
  then show ?thesis using a b by (simp add: lockInv_processTextBuffer)
qed

lemma lockInv_step: "lockInv s \<Longrightarrow> lockInv (bufferStep s ev)"
  by (cases ev) (simp_all add: lockInv_text_chunk lockInv_text_complete lockInv_resume)

lemma lockInv_run: "lockInv s \<Longrightarrow> lockInv (bufferRun s evs)"
  unfolding bufferRun_def
  by (induction evs arbitrary: s) (simp_all add: lockInv_step)

lemma lockInv_init: "lockInv initPage"
  by (simp add: lockInv_def initPage_def)

lemma processTextBuffer_begins:
  assumes "inflight (processTextBuffer force s) \<noteq> inflight s"
  shows "\<not> isProcessingRef s \<and> isProcessingRef (processTextBuffer force s) \<and>
         (\<exists>batch rest. trace (processTextBuffer force s) =
            trace s @ [SetProcessing True, SetBuffer rest, CallTts batch])"
proof -
  have idle: "\<not> isProcessingRef s"
    using assms by (auto simp add: processTextBuffer_busy setPendingFlush_def split: if_splits)
  have go: "20 \<le> countWords (textBufferRef s) \<or> (force \<and> 0 < countWords (textBufferRef s))"
    using assms idle processTextBuffer_skip [of s force] by fastforce
  show ?thesis using idle go
    by (simp add: processTextBuffer_def Let_def setter_defs)
qed

text \<open>
  C2. Whatever chunks, completions of the text and settlements of pending syntheses
  arrive, in whatever order, at most one synthesis is in flight. A call of
  \<^verbatim>\<open>processTextBuffer\<close> starts a synthesis only when the flag is clear, and it then sets
  the flag, next writes the buffer, next calls the synthesizer.
\<close>

theorem at_most_one_synthesis:
  "length (inflight (bufferRun initPage evs)) \<le> 1 \<and>
   (inflight (processTextBuffer force s) \<noteq> inflight s \<longrightarrow>
      \<not> isProcessingRef s \<and> isProcessingRef (processTextBuffer force s) \<and>
      (\<exists>batch rest. trace (processTextBuffer force s) =
         trace s @ [SetProcessing True, SetBuffer rest, CallTts batch]))"
proof -
  have "lockInv (bufferRun initPage evs)"
    by (simp add: lockInv_run lockInv_init)
  then have "length (inflight (bufferRun initPage evs)) \<le> 1"
    by (simp add: lockInv_def split: if_splits)
  then show ?thesis using processTextBuffer_begins by blast
qed

text \<open>A run with a deferred flush, and a flush that starts a synthesis.\<close>

theorem at_most_one_synthesis_witness:
  "length (inflight (bufferRun initPage [TextChunk words20, TextChunk words25, TextComplete])) \<le> 1 \<and>
   inflight (processTextBuffer False (initPage\<lparr>textBufferRef := words25\<rparr>))
     \<noteq> inflight (initPage\<lparr>textBufferRef := words25\<rparr>) \<and>
   \<not> isProcessingRef (initPage\<lparr>textBufferRef := words25\<rparr>) \<and>
   isProcessingRef (processTextBuffer False (initPage\<lparr>textBufferRef := words25\<rparr>)) \<and>
   trace (processTextBuffer False (initPage\<lparr>textBufferRef := words25\<rparr>)) =
     [SetProcessing True, SetBuffer ''u v w x y'', CallTts words20]"
proof -
  let ?s = "initPage\<lparr>textBufferRef := words25\<rparr>"
  have ne: "inflight (processTextBuffer False ?s) \<noteq> inflight ?s" by code_simp
  have tr: "trace (processTextBuffer False ?s) = [SetProcessing True, SetBuffer ''u v w x y'', CallTts words20]"
    by code_simp
  show ?thesis
    using at_most_one_synthesis [of "[TextChunk words20, TextChunk words25, TextComplete]" False ?s] ne tr
    by simp
qed

text \<open>
  The theorem speaks of chunks, completions of the text and settlements only. The send
  effect, \<^verbatim>\<open>startCall\<close> and \<^verbatim>\<open>stopCall\<close> clear \<open>isProcessingRef\<close> whether or not a synthesis is
  pending: here an answer is sent while the first twenty words are being converted, and
  the next twenty words start a second synthesis beside the first.
\<close>

lemma reset_lets_second_synthesis_start:
  "length (inflight (bufferRun
      (sendTranscriptEffect
         (pendingPage\<lparr>stt := onmessage (Results ''I agree'' True True) (stt pendingPage)\<rparr>))
      [TextChunk words20])) = 2"
  by code_simp

lemma busy_step_noSettle:
  assumes "mounted s" "isProcessingRef s" "noSettle ev"
  shows "mounted (bufferStep s ev) \<and> isProcessingRef (bufferStep s ev) \<and>
         inflight (bufferStep s ev) = inflight s \<and>
         textBufferRef (bufferStep s ev) = textBufferRef s @ chunkText ev \<and>
         pendingFlushRef (bufferStep s ev) = (pendingFlushRef s \<or> ev = TextComplete)"
  using assms
  by (cases ev) (simp_all add: text_chunk_def text_complete_def processTextBuffer_busy setter_defs)

lemma busy_run_noSettle:
  assumes "mounted s" "isProcessingRef s" "list_all noSettle evs"
  shows "mounted (bufferRun s evs) \<and> isProcessingRef (bufferRun s evs) \<and>
         inflight (bufferRun s evs) = inflight s \<and>
         textBufferRef (bufferRun s evs) = textBufferRef s @ concat (map chunkText evs) \<and>
         (pendingFlushRef s \<longrightarrow> pendingFlushRef (bufferRun s evs))"
  using assms
proof (induction evs arbitrary: s)
  case Nil
  then show ?case by (simp add: bufferRun_def)
next
  case (Cons ev evs)
  from Cons.prems have st: "mounted (bufferStep s ev)" "isProcessingRef (bufferStep s ev)"
      "inflight (bufferStep s ev) = inflight s"
      "textBufferRef (bufferStep s ev) = textBufferRef s @ chunkText ev"
      "pendingFlushRef (bufferStep s ev) = (pendingFlushRef s \<or> ev = TextComplete)"
    using busy_step_noSettle [of s ev] by simp_all
  from Cons.prems have "list_all noSettle evs" by simp
  from Cons.IH [OF st(1) st(2) this] st show ?case
    by (simp add: bufferRun_def)
qed

lemma resume_single:
  assumes "inflight s = [t]" and "heldBack s = [outer]"
  shows "processTextBuffer_resume 0 outcome ident s =
     (let s1 = (case textToAudioBuffer outcome t of
                  Inl e \<Rightarrow> s\<lparr>inflight := [], heldBack := []\<rparr>
                | Inr audio \<Rightarrow> callEnqueue ident audio t (s\<lparr>inflight := [], heldBack := []\<rparr>));
          s2 = setProcessing False s1;
          s3 = (if pendingFlushRef s2 then processTextBuffer True (setPendingFlush False s2)
                else if 20 \<le> countWords (textBufferRef s2) then processTextBuffer False s2
                else s2);
          thrown = (case textToAudioBuffer outcome t of Inl e \<Rightarrow> Some e | Inr audio \<Rightarrow> outer)
      in if isProcessingRef s3
         then (None, s3\<lparr>heldBack := butlast (heldBack s3) @ [thrown]\<rparr>)
         else (thrown,
               s3\<lparr>unhandledRejections := unhandledRejections s3 @
                      (case thrown of None \<Rightarrow> [] | Some e \<Rightarrow> [e])\<rparr>))"
  using assms by (simp add: processTextBuffer_resume_def Let_def)

lemma resume_pending_flush:
  assumes "inflight s = [t]" "pendingFlushRef s"
  shows "\<not> pendingFlushRef (snd (processTextBuffer_resume 0 outcome ident s)) \<and>
    (if 0 < countWords (textBufferRef s)
     then inflight (snd (processTextBuffer_resume 0 outcome ident s)) = [textBufferRef s] \<and>
          textBufferRef (snd (processTextBuffer_resume 0 outcome ident s)) = [] \<and>
          isProcessingRef (snd (processTextBuffer_resume 0 outcome ident s))
     else inflight (snd (processTextBuffer_resume 0 outcome ident s)) = [] \<and>
          textBufferRef (snd (processTextBuffer_resume 0 outcome ident s)) = textBufferRef s \<and>
          \<not> isProcessingRef (snd (processTextBuffer_resume 0 outcome ident s)))"
proof -
  obtain h u where eq: "snd (processTextBuffer_resume 0 outcome ident s) =
     (let s0 = s\<lparr>inflight := take 0 (inflight s) @ drop (Suc 0) (inflight s),
                 heldBack := take 0 (heldBack s) @ drop (Suc 0) (heldBack s)\<rparr>;
          s1 = (case textToAudioBuffer outcome (inflight s ! 0) of
                  Inl e \<Rightarrow> s0
                | Inr audio \<Rightarrow> callEnqueue ident audio (inflight s ! 0) s0);
          s2 = setProcessing False s1
      in if pendingFlushRef s2 then processTextBuffer True (setPendingFlush False s2)
         else if 20 \<le> countWords (textBufferRef s2) then processTextBuffer False s2
         else s2)\<lparr>heldBack := h, unhandledRejections := u\<rparr>"
    using resume_core [of 0 outcome ident s] by (elim exE)
  show ?thesis
    unfolding eq using assms
    by (simp add: Let_def processTextBuffer_def setter_defs split: sum.splits)
qed

lemma deferred_flush_from_pending:
  assumes "mounted s" and "isProcessingRef s" and "inflight s = [t]" and "list_all noSettle evs"
  shows "text_complete s = s\<lparr>pendingFlushRef := True, trace := trace s @ [SetPendingFlush True]\<rparr> \<and>
    (let s2 = bufferRun (text_complete s) evs;
         s3 = bufferStep s2 (TtsSettled 0 outcome ident);
         whole = textBufferRef s @ concat (map chunkText evs)
     in pendingFlushRef s2 \<and> textBufferRef s2 = whole \<and> inflight s2 = [t] \<and>
        \<not> pendingFlushRef s3 \<and>
        (if 0 < countWords whole
         then inflight s3 = [whole] \<and> textBufferRef s3 = [] \<and> isProcessingRef s3
         else inflight s3 = [] \<and> textBufferRef s3 = whole \<and> \<not> isProcessingRef s3))"
proof -
  have tc: "text_complete s = s\<lparr>pendingFlushRef := True, trace := trace s @ [SetPendingFlush True]\<rparr>"
    using assms by (simp add: text_complete_def processTextBuffer_busy setPendingFlush_def)
  let ?s1 = "text_complete s"
  have s1: "mounted ?s1" "isProcessingRef ?s1" "pendingFlushRef ?s1" "inflight ?s1 = [t]"
      "textBufferRef ?s1 = textBufferRef s"
    using assms by (simp_all add: tc)
  let ?s2 = "bufferRun ?s1 evs"
  have s2: "pendingFlushRef ?s2" "inflight ?s2 = [t]"
      "textBufferRef ?s2 = textBufferRef s @ concat (map chunkText evs)"
    using busy_run_noSettle [OF s1(1) s1(2) assms(4)] s1 by simp_all
  have step: "bufferStep ?s2 (TtsSettled 0 outcome ident) = snd (processTextBuffer_resume 0 outcome ident ?s2)"
    using s2 by simp
  have main: "let s2 = bufferRun (text_complete s) evs;
         s3 = bufferStep s2 (TtsSettled 0 outcome ident);
         whole = textBufferRef s @ concat (map chunkText evs)
     in pendingFlushRef s2 \<and> textBufferRef s2 = whole \<and> inflight s2 = [t] \<and>
        \<not> pendingFlushRef s3 \<and>
        (if 0 < countWords whole
         then inflight s3 = [whole] \<and> textBufferRef s3 = [] \<and> isProcessingRef s3
         else inflight s3 = [] \<and> textBufferRef s3 = whole \<and> \<not> isProcessingRef s3)"
    using resume_pending_flush [OF s2(2) s2(1), of outcome ident] s2
    unfolding Let_def step by simp
  from tc main show ?thesis by (rule conjI)
qed


lemma mounted_processTextBuffer [simp]: "mounted (processTextBuffer force s) = mounted s"
  by (simp add: processTextBuffer_def Let_def setter_defs)

lemma mounted_resume: "mounted (snd (processTextBuffer_resume i outcome ident s)) = mounted s"
proof -
  obtain h u where eq: "snd (processTextBuffer_resume i outcome ident s) =
     (let s0 = s\<lparr>inflight := take i (inflight s) @ drop (Suc i) (inflight s),
                 heldBack := take i (heldBack s) @ drop (Suc i) (heldBack s)\<rparr>;
          s1 = (case textToAudioBuffer outcome (inflight s ! i) of
                  Inl e \<Rightarrow> s0
                | Inr audio \<Rightarrow> callEnqueue ident audio (inflight s ! i) s0);
          s2 = setProcessing False s1
      in if pendingFlushRef s2 then processTextBuffer True (setPendingFlush False s2)
         else if 20 \<le> countWords (textBufferRef s2) then processTextBuffer False s2
         else s2)\<lparr>heldBack := h, unhandledRejections := u\<rparr>"
    using resume_core [of i outcome ident s] by (elim exE)
  show ?thesis
    unfolding eq by (simp add: Let_def setter_defs split: sum.splits)
qed

lemma mounted_step: "mounted (bufferStep s ev) = mounted s"
  by (cases ev) (simp_all add: text_chunk_def text_complete_def mounted_resume setter_defs)

lemma mounted_run: "mounted (bufferRun s evs) = mounted s"
  unfolding bufferRun_def
  by (induction evs arbitrary: s) (simp_all add: mounted_step)

lemma converting_reachable:
  assumes "lockInv s" and "isProcessingRef s"
  shows "\<exists>t. inflight s = [t]"
proof -
  have "length (inflight s) = 1" using assms by (simp add: lockInv_def)
  then show ?thesis by (cases "inflight s") auto
qed

text \<open>
  C3. A forced flush that arrives while a conversion is in flight only records the request
  and returns: \<open>pendingFlushRef\<close> is set and nothing else changes. Whatever chunks and
  further forced flushes arrive before the conversion settles, the buffer then holds the
  old text followed by every chunk, in order, and the request is still recorded. When
  the conversion settles, with success or failure, the request is cleared and the forced
  flush runs: the whole buffer text goes to the synthesizer as one batch (when it has a
  word; a buffer without words is left as it is).
\<close>

theorem deferred_flush_honoured:
  assumes "s = bufferRun initPage evs0" and "isProcessingRef s" and "list_all noSettle evs"
  shows "text_complete s = s\<lparr>pendingFlushRef := True, trace := trace s @ [SetPendingFlush True]\<rparr> \<and>
    (let s2 = bufferRun (text_complete s) evs;
         s3 = bufferStep s2 (TtsSettled 0 outcome ident);
         whole = textBufferRef s @ concat (map chunkText evs)
     in pendingFlushRef s2 \<and> textBufferRef s2 = whole \<and> inflight s2 = inflight s \<and>
        \<not> pendingFlushRef s3 \<and>
        (if 0 < countWords whole
         then inflight s3 = [whole] \<and> textBufferRef s3 = [] \<and> isProcessingRef s3
         else inflight s3 = [] \<and> textBufferRef s3 = whole \<and> \<not> isProcessingRef s3))"
proof -
  have "lockInv s"
    unfolding assms(1) by (rule lockInv_run [OF lockInv_init])
  from converting_reachable [OF this assms(2)]
  obtain t where t: "inflight s = [t]" by (elim exE)
  have m: "mounted s"
    unfolding assms(1) by (simp add: mounted_run initPage_def)
  show ?thesis
    unfolding t by (rule deferred_flush_from_pending [OF m assms(2) t assms(3)])
qed

text \<open>Two chunks and two forced flushes arrive while the first twenty words are converted.\<close>

theorem deferred_flush_honoured_witness:
  "mounted pendingPage \<and> isProcessingRef pendingPage \<and> inflight pendingPage = [words20] \<and>
   list_all noSettle [TextChunk ''hello '', TextComplete, TextChunk ''world''] \<and>
   pendingFlushRef (text_complete pendingPage) \<and>
   inflight (bufferStep
       (bufferRun (text_complete pendingPage) [TextChunk ''hello '', TextComplete, TextChunk ''world''])
       (TtsSettled 0 okOutcome ''audio_1'')) = [''hello world''] \<and>
   textBufferRef (bufferStep
       (bufferRun (text_complete pendingPage) [TextChunk ''hello '', TextComplete, TextChunk ''world''])
       (TtsSettled 0 okOutcome ''audio_1'')) = []"
proof -
  let ?evs = "[TextChunk ''hello '', TextComplete, TextChunk ''world'']"
  have h1: "mounted pendingPage" by code_simp
  have h2: "isProcessingRef pendingPage" by code_simp
  have h3: "inflight pendingPage = [words20]" by code_simp
  have h4: "list_all noSettle ?evs" by simp
  have tb: "textBufferRef pendingPage @ concat (map chunkText ?evs) = ''hello world''"
    by code_simp
  have cw: "0 < countWords ''hello world''" by code_simp
  have r: "pendingPage = bufferRun initPage [TextChunk words20]" by (rule pendingPage_def)
  note th = deferred_flush_honoured [OF r h2 h4, of okOutcome "''audio_1''", unfolded Let_def tb]
  from th have eq: "text_complete pendingPage =
      pendingPage\<lparr>pendingFlushRef := True, trace := trace pendingPage @ [SetPendingFlush True]\<rparr>"
    by (rule conjunct1)
  have pf: "pendingFlushRef (text_complete pendingPage)"
    by (subst eq) simp
  from th [THEN conjunct2] cw have res: "inflight (bufferStep
       (bufferRun (text_complete pendingPage) ?evs) (TtsSettled 0 okOutcome ''audio_1'')) = [''hello world''] \<and>
     textBufferRef (bufferStep
       (bufferRun (text_complete pendingPage) ?evs) (TtsSettled 0 okOutcome ''audio_1'')) = []"
    by (simp only: if_True)
  from h1 h2 h3 h4 pf res show ?thesis by (intro conjI) (elim conjE, assumption)+
qed

text \<open>
  The deferral itself loses nothing. A reset of the buffer by the send effect is another
  matter: it empties the buffer and withdraws a recorded flush, so the text that waited
  for the deferred flush is not spoken once a new answer has been sent.
\<close>

lemma reset_withdraws_deferred_flush:
  "textBufferRef (bufferRun (text_complete pendingPage) [TextChunk ''hello'']) = ''hello'' \<and>
   ttsCalls (bufferStep
      (sendTranscriptEffect
         ((bufferRun (text_complete pendingPage) [TextChunk ''hello''])
            \<lparr>stt := onmessage (Results ''I agree'' True True) (stt pendingPage)\<rparr>))
      (TtsSettled 0 okOutcome ''audio_1'')) = [words20]"
  by code_simp

lemma processTextBuffer_heldBack:
  assumes "\<not> isProcessingRef s"
  shows "heldBack (processTextBuffer force s) =
           (if isProcessingRef (processTextBuffer force s) then heldBack s @ [None] else heldBack s) \<and>
         unhandledRejections (processTextBuffer force s) = unhandledRejections s"
  using assms by (simp add: processTextBuffer_def Let_def setter_defs)

lemma resume_thrown:
  assumes "inflight s = [t]" and "heldBack s = [outer]"
  shows "let r = processTextBuffer_resume 0 outcome ident s;
             thrown = (case textToAudioBuffer outcome t of Inl e \<Rightarrow> Some e | Inr audio \<Rightarrow> outer)
         in if isProcessingRef (snd r)
            then fst r = None \<and> heldBack (snd r) = [thrown] \<and>
                 unhandledRejections (snd r) = unhandledRejections s
            else fst r = thrown \<and> heldBack (snd r) = [] \<and>
                 unhandledRejections (snd r) =
                   unhandledRejections s @ (case thrown of None \<Rightarrow> [] | Some e \<Rightarrow> [e])"
proof -
  define s1 where "s1 = (case textToAudioBuffer outcome t of
                  Inl e \<Rightarrow> s\<lparr>inflight := [], heldBack := []\<rparr>
                | Inr audio \<Rightarrow> callEnqueue ident audio t (s\<lparr>inflight := [], heldBack := []\<rparr>))"
  define s2 where "s2 = setProcessing False s1"
  define s3 where "s3 = (if pendingFlushRef s2 then processTextBuffer True (setPendingFlush False s2)
                else if 20 \<le> countWords (textBufferRef s2) then processTextBuffer False s2
                else s2)"
  define thrown where "thrown =
     (case textToAudioBuffer outcome t of Inl e \<Rightarrow> Some e | Inr audio \<Rightarrow> outer)"
  have eq: "processTextBuffer_resume 0 outcome ident s =
     (if isProcessingRef s3
      then (None, s3\<lparr>heldBack := butlast (heldBack s3) @ [thrown]\<rparr>)
      else (thrown,
            s3\<lparr>unhandledRejections := unhandledRejections s3 @
                   (case thrown of None \<Rightarrow> [] | Some e \<Rightarrow> [e])\<rparr>))"
    using resume_single [OF assms, of outcome ident]
    by (simp only: Let_def s1_def s2_def s3_def thrown_def)
  have f1: "heldBack s1 = []" "unhandledRejections s1 = unhandledRejections s"
    by (simp_all add: s1_def callEnqueue_def split: sum.splits)
  have f2: "heldBack s2 = []" "unhandledRejections s2 = unhandledRejections s"
      "\<not> isProcessingRef s2"
    using f1 by (simp_all add: s2_def setProcessing_def)
  have f2': "heldBack (setPendingFlush False s2) = []"
      "unhandledRejections (setPendingFlush False s2) = unhandledRejections s"
      "\<not> isProcessingRef (setPendingFlush False s2)"
    using f2 by (simp_all add: setPendingFlush_def)
  have f3: "heldBack s3 = (if isProcessingRef s3 then [None] else [])"
      "unhandledRejections s3 = unhandledRejections s"
    using processTextBuffer_heldBack [OF f2(3), of False]
      processTextBuffer_heldBack [OF f2'(3), of True] f2 f2'
    by (simp_all add: s3_def)
  show ?thesis
    unfolding Let_def thrown_def [symmetric] eq using f3 by simp
qed

text \<open>
  C4 (as amended). When the synthesis of a batch fails, the exception is not caught
  inside \<^verbatim>\<open>processTextBuffer\<close> (the \<^verbatim>\<open>try\<close> has a \<^verbatim>\<open>finally\<close> and no \<^verbatim>\<open>catch\<close>). The \<^verbatim>\<open>finally\<close>
  block clears the conversion flag first and then resumes with the text that has
  accumulated: a recorded forced flush takes the whole buffer, otherwise 20 or more
  buffered words give the next batch of 20. Nothing is enqueued for the failed batch and
  its text is not put back. The exception leaves the routine when the \<^verbatim>\<open>finally\<close> block
  is done: at once when the block starts no further batch; when it starts one, the
  exception is held back until that batch has settled, and whatever was held back before
  is replaced by the new exception. A batch that succeeds passes on what was held back:
  it stays held when the block starts a further batch and leaves the routine otherwise.
\<close>

theorem synthesis_failure_propagates:
  assumes "inflight s = [t]" and "heldBack s = [outer]"
      and "textToAudioBuffer failing t = Inl e"
      and "textToAudioBuffer passing t = Inr audio"
  shows "let r = processTextBuffer_resume 0 failing ident s;
             s' = snd r;
             buf = textBufferRef s;
             q = processTextBuffer_resume 0 passing ident s
         in aq s' = aq s \<and>
            take (Suc (length (trace s))) (trace s') = trace s @ [SetProcessing False] \<and>
            (if pendingFlushRef s then
               (if 0 < countWords buf
                then inflight s' = [buf] \<and> textBufferRef s' = [] \<and> isProcessingRef s'
                else inflight s' = [] \<and> textBufferRef s' = buf \<and> \<not> isProcessingRef s')
             else if 20 \<le> countWords buf
               then inflight s' = [joinSp (take 20 (wordsOf buf))] \<and>
                    textBufferRef s' = joinSp (drop 20 (wordsOf buf)) \<and> isProcessingRef s'
               else inflight s' = [] \<and> textBufferRef s' = buf \<and> \<not> isProcessingRef s') \<and>
            (if isProcessingRef s'
             then fst r = None \<and> heldBack s' = [Some e] \<and>
                  unhandledRejections s' = unhandledRejections s
             else fst r = Some e \<and> heldBack s' = [] \<and>
                  unhandledRejections s' = unhandledRejections s @ [e]) \<and>
            (if isProcessingRef (snd q)
             then fst q = None \<and> heldBack (snd q) = [outer] \<and>
                  unhandledRejections (snd q) = unhandledRejections s
             else fst q = outer \<and> heldBack (snd q) = [] \<and>
                  unhandledRejections (snd q) =
                    unhandledRejections s @ (case outer of None \<Rightarrow> [] | Some e0 \<Rightarrow> [e0]))"
proof -
  let ?r = "processTextBuffer_resume 0 failing ident s"
  let ?q = "processTextBuffer_resume 0 passing ident s"
  let ?buf = "textBufferRef s"
  have a: "aq (snd ?r) = aq s \<and>
      take (Suc (length (trace s))) (trace (snd ?r)) = trace s @ [SetProcessing False]"
    using assms(1,2,3)
    by (simp add: resume_single Let_def processTextBuffer_def setter_defs)
  have b: "if pendingFlushRef s then
               (if 0 < countWords ?buf
                then inflight (snd ?r) = [?buf] \<and> textBufferRef (snd ?r) = [] \<and> isProcessingRef (snd ?r)
                else inflight (snd ?r) = [] \<and> textBufferRef (snd ?r) = ?buf \<and> \<not> isProcessingRef (snd ?r))
             else if 20 \<le> countWords ?buf
               then inflight (snd ?r) = [joinSp (take 20 (wordsOf ?buf))] \<and>
                    textBufferRef (snd ?r) = joinSp (drop 20 (wordsOf ?buf)) \<and> isProcessingRef (snd ?r)
               else inflight (snd ?r) = [] \<and> textBufferRef (snd ?r) = ?buf \<and> \<not> isProcessingRef (snd ?r)"
    using assms(1,2,3)
    by (simp add: resume_single Let_def processTextBuffer_def setter_defs extractFirstNWords_words)
  have c: "if isProcessingRef (snd ?r)
             then fst ?r = None \<and> heldBack (snd ?r) = [Some e] \<and>
                  unhandledRejections (snd ?r) = unhandledRejections s
             else fst ?r = Some e \<and> heldBack (snd ?r) = [] \<and>
                  unhandledRejections (snd ?r) = unhandledRejections s @ [e]"
    using resume_thrown [OF assms(1) assms(2), of failing ident] assms(3)
    by (simp add: Let_def)
  have d: "if isProcessingRef (snd ?q)
             then fst ?q = None \<and> heldBack (snd ?q) = [outer] \<and>
                  unhandledRejections (snd ?q) = unhandledRejections s
             else fst ?q = outer \<and> heldBack (snd ?q) = [] \<and>
                  unhandledRejections (snd ?q) =
                    unhandledRejections s @ (case outer of None \<Rightarrow> [] | Some e0 \<Rightarrow> [e0])"
    using resume_thrown [OF assms(1) assms(2), of passing ident] assms(4)
    by (simp add: Let_def)
  from a b c d show ?thesis unfolding Let_def by (intro conjI) (elim conjE, assumption)+
qed

text \<open>
  Twenty words are being converted and twenty-five more wait in the buffer. The request
  is rejected: the \<^verbatim>\<open>finally\<close> block starts the next twenty words and the exception is held
  back. When that second synthesis succeeds the held exception leaves the routine; when
  it is answered with status 503 that later exception leaves instead.
\<close>

theorem synthesis_failure_propagates_witness:
  "inflight busyPage = [words20] \<and> heldBack busyPage = [None] \<and>
   textToAudioBuffer Rejected words20 = Inl FetchRejected \<and>
   textToAudioBuffer okOutcome words20 = Inr (AudioBuffer 7) \<and>
   fst (processTextBuffer_resume 0 Rejected ''audio_1'' busyPage) = None \<and>
   aq (snd (processTextBuffer_resume 0 Rejected ''audio_1'' busyPage)) = aq busyPage \<and>
   inflight (snd (processTextBuffer_resume 0 Rejected ''audio_1'' busyPage)) = [words20] \<and>
   textBufferRef (snd (processTextBuffer_resume 0 Rejected ''audio_1'' busyPage)) = ''u v w x y'' \<and>
   heldBack (snd (processTextBuffer_resume 0 Rejected ''audio_1'' busyPage)) = [Some FetchRejected] \<and>
   unhandledRejections (snd (processTextBuffer_resume 0 Rejected ''audio_1'' busyPage)) = [] \<and>
   textToAudioBuffer (Response False 503 ''Service Unavailable'' None) words20
     = Inl (TtsFailed 503 ''Service Unavailable'') \<and>
   fst (processTextBuffer_resume 0 okOutcome ''audio_2''
          (snd (processTextBuffer_resume 0 Rejected ''audio_1'' busyPage))) = Some FetchRejected \<and>
   unhandledRejections (snd (processTextBuffer_resume 0 okOutcome ''audio_2''
          (snd (processTextBuffer_resume 0 Rejected ''audio_1'' busyPage)))) = [FetchRejected] \<and>
   fst (processTextBuffer_resume 0 (Response False 503 ''Service Unavailable'' None) ''audio_2''
          (snd (processTextBuffer_resume 0 Rejected ''audio_1'' busyPage)))
     = Some (TtsFailed 503 ''Service Unavailable'') \<and>
   unhandledRejections (snd (processTextBuffer_resume 0
          (Response False 503 ''Service Unavailable'' None) ''audio_2''
          (snd (processTextBuffer_resume 0 Rejected ''audio_1'' busyPage))))
     = [TtsFailed 503 ''Service Unavailable'']"
proof -
  let ?s1 = "snd (processTextBuffer_resume 0 Rejected ''audio_1'' busyPage)"
  let ?bad = "Response False 503 ''Service Unavailable'' None"
  have h1: "inflight busyPage = [words20]" by code_simp
  have h2: "heldBack busyPage = [None]" by code_simp
  have h3: "textToAudioBuffer Rejected words20 = Inl FetchRejected" by code_simp
  have h4: "textToAudioBuffer okOutcome words20 = Inr (AudioBuffer 7)" by code_simp
  have h5: "textToAudioBuffer ?bad words20 = Inl (TtsFailed 503 ''Service Unavailable'')"
    by code_simp
  have p: "\<not> pendingFlushRef busyPage" by code_simp
  have w: "wordsOf (textBufferRef busyPage) = [''a'', ''b'', ''c'', ''d'', ''e'', ''f'', ''g'', ''h'', ''i'', ''j'',
      ''k'', ''l'', ''m'', ''n'', ''o'', ''p'', ''q'', ''r'', ''s'', ''t'', ''u'', ''v'', ''w'', ''x'', ''y'']"
    by code_simp
  have c: "20 \<le> countWords (textBufferRef busyPage)"
    by (simp add: countWords_wordsOf w)
  have j: "joinSp (take 20 (wordsOf (textBufferRef busyPage))) = words20"
    unfolding w by (simp add: words20_def)
  have k: "joinSp (drop 20 (wordsOf (textBufferRef busyPage))) = ''u v w x y''"
    unfolding w by simp
  have aq1: "aq ?s1 = aq busyPage"
    and i1: "inflight ?s1 = [words20]"
    and b1: "textBufferRef ?s1 = ''u v w x y''"
    and run1: "isProcessingRef ?s1"
    using synthesis_failure_propagates [OF h1 h2 h3 h4, of "''audio_1''"] p c
    unfolding Let_def j k by simp_all
  have f1: "fst (processTextBuffer_resume 0 Rejected ''audio_1'' busyPage) = None"
    and hb1: "heldBack ?s1 = [Some FetchRejected]"
    and u1: "unhandledRejections ?s1 = unhandledRejections busyPage"
    using synthesis_failure_propagates [OF h1 h2 h3 h4, of "''audio_1''"] run1
    unfolding Let_def by simp_all
  have u0: "unhandledRejections busyPage = []" by code_simp
  have p1: "\<not> pendingFlushRef ?s1" by code_simp
  have c1: "\<not> 20 \<le> countWords (textBufferRef ?s1)"
    unfolding b1 by code_simp
  note second = synthesis_failure_propagates [OF i1 hb1 h5 h4, of "''audio_2''", unfolded Let_def]
  have idle2: "\<not> isProcessingRef (snd (processTextBuffer_resume 0 ?bad ''audio_2'' ?s1))"
    using second p1 c1 by simp
  have f2: "fst (processTextBuffer_resume 0 ?bad ''audio_2'' ?s1) = Some (TtsFailed 503 ''Service Unavailable'')"
    and u2: "unhandledRejections (snd (processTextBuffer_resume 0 ?bad ''audio_2'' ?s1))
       = unhandledRejections ?s1 @ [TtsFailed 503 ''Service Unavailable'']"
    using second idle2 by simp_all
  have idle3: "\<not> isProcessingRef (snd (processTextBuffer_resume 0 okOutcome ''audio_2'' ?s1))"
    by code_simp
  have f3: "fst (processTextBuffer_resume 0 okOutcome ''audio_2'' ?s1) = Some FetchRejected"
    and u3: "unhandledRejections (snd (processTextBuffer_resume 0 okOutcome ''audio_2'' ?s1))
       = unhandledRejections ?s1 @ [FetchRejected]"
    using second idle3 by simp_all
  show ?thesis
    using h1 h2 h3 h4 h5 f1 aq1 i1 b1 hb1 f2 f3
    by (simp add: u1 u2 u3 u0)
qed

text \<open>
  C4 as stated has the failure caught and logged inside the flush routine. The rejected
  request leaves the routine as an exception, and the routine's actions are the five
  listed: none of them logs.
\<close>

theorem synthesis_failure_counterexample:
  "fst (processTextBuffer_resume 0 Rejected ''audio_1'' pendingPage) = Some FetchRejected \<and>
   trace (snd (processTextBuffer_resume 0 Rejected ''audio_1'' pendingPage)) =
     [SetBuffer words20, SetProcessing True, SetBuffer [], CallTts words20, SetProcessing False]"
  by code_simp

section \<open>No synthesis of blank text\<close>

lemma dropWhile_Nil_all: "dropWhile P xs = [] \<longleftrightarrow> (\<forall>x\<in>set xs. P x)"
  by (induction xs) auto

lemma trim_Nil_iff: "trim x = [] \<longleftrightarrow> (\<forall>c\<in>set x. isSpace c)"
proof
  assume "trim x = []"
  then have "dropWhile isSpace (rev (dropWhile isSpace x)) = []" by (simp add: trim_def)
  then have all: "\<forall>c\<in>set (rev (dropWhile isSpace x)). isSpace c"
    by (simp only: dropWhile_Nil_all)
  have "dropWhile isSpace x = []"
  proof (rule ccontr)
    assume ne: "dropWhile isSpace x \<noteq> []"
    then have "\<not> isSpace (hd (dropWhile isSpace x))" by (rule hd_dropWhile)
    moreover have "hd (dropWhile isSpace x) \<in> set (rev (dropWhile isSpace x))" using ne by simp
    ultimately show False using all by blast
  qed
  then show "\<forall>c\<in>set x. isSpace c" by (simp only: dropWhile_Nil_all)
next
  assume "\<forall>c\<in>set x. isSpace c"
  then have e: "dropWhile isSpace x = []" by (simp only: dropWhile_Nil_all)
  show "trim x = []" unfolding trim_def e by simp
qed

lemma wordsOf_member:
  "w \<in> set (wordsOf t) \<Longrightarrow> w \<noteq> [] \<and> (\<forall>c\<in>set w. \<not> isSpace c)"
proof (induction "length t" arbitrary: t rule: less_induct)
  case less
  show ?case
  proof (cases t)
    case Nil
    then show ?thesis using less.prems by simp
  next
    case (Cons c cs)
    show ?thesis
    proof (cases "isSpace c")
      case True
      then have "w \<in> set (wordsOf cs)" using less.prems Cons by simp
      then show ?thesis using less.hyps [of cs] Cons by simp
    next
      case False
      let ?rest = "dropWhile (\<lambda>c. \<not> isSpace c) cs"
      from False less.prems Cons
      consider "w = c # takeWhile (\<lambda>c. \<not> isSpace c) cs" | "w \<in> set (wordsOf ?rest)"
        by (auto simp add: wordsOf_nonspace)
      then show ?thesis
      proof cases
        case 1
        then show ?thesis using False by (auto dest: set_takeWhileD)
      next
        case 2
        have "length ?rest < length t"
          using Cons by (simp add: length_dropWhile_le less_Suc_eq_le)
        then show ?thesis using less.hyps [of ?rest] 2 by blast
      qed
    qed
  qed
qed

lemma hd_joinSp: "ws \<noteq> [] \<Longrightarrow> hd ws \<noteq> [] \<Longrightarrow> hd (joinSp ws) = hd (hd ws) \<and> joinSp ws \<noteq> []"
  by (induction ws rule: joinSp.induct) auto

lemma joinSp_words_nonblank:
  assumes "ws \<noteq> []" and "\<forall>w\<in>set ws. w \<noteq> [] \<and> (\<forall>c\<in>set w. \<not> isSpace c)"
  shows "trim (joinSp ws) \<noteq> []"
proof -
  from assms(1) obtain w rest where ws: "ws = w # rest" by (cases ws) auto
  have h: "hd ws \<noteq> []" using assms(2) ws by simp
  have n: "\<not> isSpace (hd (hd ws))" using assms(2) ws by simp
  from hd_joinSp [OF assms(1) h] have "hd (joinSp ws) = hd (hd ws)" "joinSp ws \<noteq> []" by simp_all
  then have "\<exists>c\<in>set (joinSp ws). \<not> isSpace c" using n by (metis list.set_sel(1))
  then show ?thesis by (simp add: trim_Nil_iff)
qed

lemma first20_nonblank:
  assumes "20 \<le> countWords buf"
  shows "trim (joinSp (take 20 (wordsOf buf))) \<noteq> []"
proof -
  have "take 20 (wordsOf buf) \<noteq> []" using assms by (auto simp add: countWords_wordsOf)
  moreover have "\<forall>w\<in>set (take 20 (wordsOf buf)). w \<noteq> [] \<and> (\<forall>c\<in>set w. \<not> isSpace c)"
  proof (intro ballI)
    fix w assume "w \<in> set (take 20 (wordsOf buf))"
    then have "w \<in> set (wordsOf buf)" by (rule in_set_takeD)
    then show "w \<noteq> [] \<and> (\<forall>c\<in>set w. \<not> isSpace c)" by (rule wordsOf_member)
  qed
  ultimately show ?thesis by (rule joinSp_words_nonblank)
qed

lemma ttsCalls_processTextBuffer:
  "ttsCalls (processTextBuffer force s) = ttsCalls s \<or>
   (\<exists>t. trim t \<noteq> [] \<and> ttsCalls (processTextBuffer force s) = ttsCalls s @ [t])"
proof (cases "isProcessingRef s")
  case True
  then show ?thesis by (simp add: processTextBuffer_busy ttsCalls_def setPendingFlush_def)
next
  case idle: False
  show ?thesis
  proof (cases "20 \<le> countWords (textBufferRef s) \<or> (force \<and> 0 < countWords (textBufferRef s))")
    case False
    then show ?thesis using idle processTextBuffer_skip [of s force] by auto
  next
    case True
    show ?thesis
    proof (cases force)
      case True
      with \<open>20 \<le> countWords (textBufferRef s) \<or> (force \<and> 0 < countWords (textBufferRef s))\<close>
      have pos: "0 < countWords (textBufferRef s)" by auto
      then have "trim (textBufferRef s) \<noteq> []" by (rule countWords_pos_trim)
      then show ?thesis using idle pos True
        by (simp add: processTextBuffer_all ttsCalls_def setter_defs)
    next
      case False
      with True have ge: "20 \<le> countWords (textBufferRef s)" by simp
      then show ?thesis using idle False first20_nonblank [OF ge]
        by (simp add: processTextBuffer_first20 ttsCalls_def setter_defs)
    qed
  qed
qed

lemma nonblank_processTextBuffer:
  "list_all (\<lambda>t. trim t \<noteq> []) (ttsCalls s) \<Longrightarrow>
   list_all (\<lambda>t. trim t \<noteq> []) (ttsCalls (processTextBuffer force s))"
  using ttsCalls_processTextBuffer [of force s] by auto

lemma ttsCalls_setters [simp]:
  "ttsCalls (setBuffer b s) = ttsCalls s"
  "ttsCalls (setProcessing p s) = ttsCalls s"
  "ttsCalls (setPendingFlush p s) = ttsCalls s"
  "ttsCalls (callEnqueue ident audio t s) = ttsCalls s"
  "ttsCalls (s\<lparr>inflight := l\<rparr>) = ttsCalls s"
  "ttsCalls (s\<lparr>heldBack := h\<rparr>) = ttsCalls s"
  "ttsCalls (s\<lparr>unhandledRejections := u\<rparr>) = ttsCalls s"
  by (simp_all add: ttsCalls_def setter_defs)

lemma nonblank_step:
  assumes "list_all (\<lambda>t. trim t \<noteq> []) (ttsCalls s)"
  shows "list_all (\<lambda>t. trim t \<noteq> []) (ttsCalls (bufferStep s ev))"
proof (cases ev)
  case (TextChunk chunk)
  then show ?thesis using assms
    by (simp add: text_chunk_def nonblank_processTextBuffer)
next
  case TextComplete
  then show ?thesis using assms
    by (simp add: text_complete_def nonblank_processTextBuffer)
next
  case (TtsSettled i outcome ident)
  obtain h u where eq: "snd (processTextBuffer_resume i outcome ident s) =
     (let s0 = s\<lparr>inflight := take i (inflight s) @ drop (Suc i) (inflight s),
                 heldBack := take i (heldBack s) @ drop (Suc i) (heldBack s)\<rparr>;
          s1 = (case textToAudioBuffer outcome (inflight s ! i) of
                  Inl e \<Rightarrow> s0
                | Inr audio \<Rightarrow> callEnqueue ident audio (inflight s ! i) s0);
          s2 = setProcessing False s1
      in if pendingFlushRef s2 then processTextBuffer True (setPendingFlush False s2)
         else if 20 \<le> countWords (textBufferRef s2) then processTextBuffer False s2
         else s2)\<lparr>heldBack := h, unhandledRejections := u\<rparr>"
    using resume_core [of i outcome ident s] by (elim exE)
  have "list_all (\<lambda>t. trim t \<noteq> []) (ttsCalls (snd (processTextBuffer_resume i outcome ident s)))"
    unfolding eq using assms
    by (simp add: Let_def nonblank_processTextBuffer split: sum.splits)
  then show ?thesis using assms TtsSettled by simp
qed

lemma nonblank_run:
  "list_all (\<lambda>t. trim t \<noteq> []) (ttsCalls s) \<Longrightarrow>
   list_all (\<lambda>t. trim t \<noteq> []) (ttsCalls (bufferRun s evs))"
  unfolding bufferRun_def
  by (induction evs arbitrary: s) (simp_all add: nonblank_step)

text \<open>
  C9 (as amended). When the buffer holds no word, \<^verbatim>\<open>processTextBuffer\<close>, forced or not, calls
  no synthesis and leaves the buffer and the conversion flag as they are; it leaves the
  pending-flush flag as it is too, except that a forced call while a conversion is in
  flight sets it. In every run from the mounted page, every text ever handed to the
  synthesizer has a character that is not white space, so the synthesizer's empty-text
  branch is never taken.
\<close>

theorem blank_buffer_no_synthesis:
  "(countWords (textBufferRef s) = 0 \<longrightarrow>
      inflight (processTextBuffer force s) = inflight s \<and>
      textBufferRef (processTextBuffer force s) = textBufferRef s \<and>
      isProcessingRef (processTextBuffer force s) = isProcessingRef s \<and>
      pendingFlushRef (processTextBuffer force s) = (pendingFlushRef s \<or> (isProcessingRef s \<and> force)) \<and>
      ttsCalls (processTextBuffer force s) = ttsCalls s) \<and>
   (\<forall>t\<in>set (ttsCalls (bufferRun initPage evs)).
      trim t \<noteq> [] \<and> textToAudioBuffer outcome t \<noteq> Inl NoTextProvided)"
proof -
  have a: "countWords (textBufferRef s) = 0 \<longrightarrow>
      inflight (processTextBuffer force s) = inflight s \<and>
      textBufferRef (processTextBuffer force s) = textBufferRef s \<and>
      isProcessingRef (processTextBuffer force s) = isProcessingRef s \<and>
      pendingFlushRef (processTextBuffer force s) = (pendingFlushRef s \<or> (isProcessingRef s \<and> force)) \<and>
      ttsCalls (processTextBuffer force s) = ttsCalls s"
    by (simp add: processTextBuffer_def Let_def setPendingFlush_def ttsCalls_def)
  have "list_all (\<lambda>t. trim t \<noteq> []) (ttsCalls initPage)"
    by (simp add: ttsCalls_def initPage_def)
  then have "list_all (\<lambda>t. trim t \<noteq> []) (ttsCalls (bufferRun initPage evs))"
    by (rule nonblank_run)
  then have b: "\<forall>t\<in>set (ttsCalls (bufferRun initPage evs)).
      trim t \<noteq> [] \<and> textToAudioBuffer outcome t \<noteq> Inl NoTextProvided"
    by (auto simp add: list_all_iff textToAudioBuffer_def split: fetchOutcome.splits option.splits)
  from a b show ?thesis by (rule conjI)
qed

text \<open>The last twenty words are being converted when the text is complete.\<close>

theorem blank_buffer_no_synthesis_witness:
  "countWords (textBufferRef pendingPage) = 0 \<and>
   inflight (processTextBuffer False pendingPage) = inflight pendingPage \<and>
   pendingFlushRef (processTextBuffer False pendingPage) = pendingFlushRef pendingPage \<and>
   words20 \<in> set (ttsCalls (bufferRun initPage
      [TextChunk words20, TextComplete, TtsSettled 0 okOutcome ''audio_1''])) \<and>
   trim words20 \<noteq> [] \<and> textToAudioBuffer okOutcome words20 \<noteq> Inl NoTextProvided"
proof -
  let ?evs = "[TextChunk words20, TextComplete, TtsSettled 0 okOutcome ''audio_1'']"
  have h: "countWords (textBufferRef pendingPage) = 0" by code_simp
  have b: "\<not> (isProcessingRef pendingPage \<and> False)" by simp
  have m: "words20 \<in> set (ttsCalls (bufferRun initPage ?evs))" by code_simp
  note th = blank_buffer_no_synthesis [of pendingPage False ?evs okOutcome]
  from th [THEN conjunct1] h
  have one: "inflight (processTextBuffer False pendingPage) = inflight pendingPage \<and>
      pendingFlushRef (processTextBuffer False pendingPage) = pendingFlushRef pendingPage"
    by simp
  from th [THEN conjunct2] m
  have two: "trim words20 \<noteq> [] \<and> textToAudioBuffer okOutcome words20 \<noteq> Inl NoTextProvided"
    by (rule bspec)
  from h one m two show ?thesis by (intro conjI) (elim conjE, assumption)+
qed

text \<open>
  C9 as stated leaves the pending-flush flag unchanged for every call on a buffer without
  words. Here the buffer is empty because its twenty words are being converted; a forced
  call then sets the flag.
\<close>

theorem blank_buffer_pending_flush_counterexample:
  "countWords (textBufferRef pendingPage) = 0 \<and> \<not> pendingFlushRef pendingPage \<and>
   pendingFlushRef (processTextBuffer True pendingPage)"
  by code_simp

section \<open>The playback queue\<close>

lemma commitRender_fields [simp]:
  "queue (commitRender sp s) = queue s"
  "isPlaying (commitRender sp s) = isPlaying s"
  "currentPlayingText (commitRender sp s) = currentPlayingText s"
  "audioContextRef (commitRender sp s) = audioContextRef s"
  "currentSourceRef (commitRender sp s) = currentSourceRef s"
  "created (commitRender sp s) = created s"
  "sounding (commitRender sp s) = sounding s"
  "awaitingEnded (commitRender sp s) = awaitingEnded s"
  "startedItems (commitRender sp s) = startedItems s"
  by (simp_all add: commitRender_def)












lemma queueInv_commitRender [simp]: "queueInv (commitRender sp s) = queueInv s"
  by (simp add: queueInv_def commitRender_def split: option.splits)




subsection \<open>The interrupt\<close>


lemma interrupt_fields:
  "currentSourceRef (interrupt s) = None" "\<not> isPlaying (interrupt s)"
  "currentPlayingText (interrupt s) = []" "queue (interrupt s) = queue s"
  "startedItems (interrupt s) = startedItems s" "created (interrupt s) = created s"
  "audioContextRef (interrupt s) = audioContextRef s"
  "effectsPending (interrupt s) = effectsPending s"
  "sounding (interrupt s) =
     (case currentSourceRef s of None \<Rightarrow> sounding s | Some a \<Rightarrow> removeAll a (sounding s))"
  by (simp_all add: interrupt_def stopSource_def split: option.splits)

subsection \<open>While the user goes on speaking\<close>



subsection \<open>When the signal has returned to false\<close>
















text \<open>
  The items that were queued at the interrupt are safe. An item that arrives between the
  commit of a render and the run of its effects is not: \<^verbatim>\<open>playNext\<close> writes the rest of the
  queue that its render saw, and the arrival is gone. Here the second item arrives in
  that window, and only the first is ever started.
\<close>

lemma arrival_in_window_overwritten:
  "map itemText (queue (queueRun None initAudioQueue [itemA, Commit False, itemB])) =
     [''Hello.'', ''How are you?''] \<and>
   queue (queueRun None initAudioQueue [itemA, Commit False, itemB, Effects None]) = [] \<and>
   map itemText (startedItems (queueRun None initAudioQueue
     [itemA, Commit False, itemB, Effects None, Ended 0, Render False None])) = [''Hello.'']"
  by code_simp

subsection \<open>The playing flag and the handle\<close>

text \<open>
  C6. Claimed: in every reachable state \<open>isPlaying\<close> holds exactly when \<open>currentSourceRef\<close> is not
  null, also after the failure path of \<^verbatim>\<open>playNext\<close>. The \<^verbatim>\<open>catch\<close> block of \<^verbatim>\<open>playNext\<close> sets
  \<open>isPlaying\<close> to false and leaves \<open>currentSourceRef\<close> as it is, where \<^verbatim>\<open>onended\<close>, the interrupt
  effect and \<^verbatim>\<open>clearQueue\<close> all clear it. One item is enqueued on the fresh queue and the
  effects run: when the caller's first-audio callback throws, or when \<^verbatim>\<open>source.start(0)\<close>
  throws, the queue is left not playing with node 0 as its handle (in the first case the
  node is sounding).
\<close>

theorem playNext_failure_keeps_handle:
  "\<not> isPlaying (queueRun (Some Throws) initAudioQueue [itemA, Render False None]) \<and>
   currentSourceRef (queueRun (Some Throws) initAudioQueue [itemA, Render False None]) = Some 0 \<and>
   sounding (queueRun (Some Throws) initAudioQueue [itemA, Render False None]) = [0] \<and>
   \<not> isPlaying (queueRun None initAudioQueue [itemA, Render False (Some StartThrows)]) \<and>
   currentSourceRef (queueRun None initAudioQueue [itemA, Render False (Some StartThrows)]) = Some 0 \<and>
   handleInv initAudioQueue \<and>
   \<not> handleInv (queueRun (Some Throws) initAudioQueue [itemA, Render False None]) \<and>
   \<not> handleInv (queueRun None initAudioQueue [itemA, Render False (Some StartThrows)])"
  by code_simp

text \<open>
  Every other step keeps the invariant: with an audio context, a callback that does not
  throw and no exception from \<^verbatim>\<open>source.start(0)\<close>, each event preserves it. (A render whose
  effects are due has seen the queue playing if it is playing now: nothing but those
  effects starts an item.)
\<close>

lemma handleInv_startPlayback:
  assumes "currentSourceRef s = None" and "flt \<noteq> Some StartThrows" and "cb \<noteq> Some Throws"
  shows "case startPlayback item cb flt s of
           (None, s2) \<Rightarrow> currentSourceRef s2 \<noteq> None \<and> isPlaying s2 = isPlaying s \<and>
                          audioContextRef s2 = audioContextRef s
         | (Some e, s2) \<Rightarrow> currentSourceRef s2 = None \<and> audioContextRef s2 = audioContextRef s"
  using assms
  by (cases flt; cases cb; cases "hasPlayedFirstAudioRef s")
     (auto simp add: startPlayback_def Let_def split: fault.splits callback.splits)

lemma handleInv_playNext:
  assumes "handleInv s" and "\<not> isPlaying s" and "audioContextRef s \<noteq> None"
    and "flt \<noteq> Some StartThrows" and "cb \<noteq> Some Throws"
  shows "handleInv (playNext cb flt s) \<and> audioContextRef (playNext cb flt s) \<noteq> None"
proof -
  let ?item = "hd (renderedQueue s)"
  let ?s1 = "s\<lparr>queue := tl (renderedQueue s), isPlaying := True,
               currentPlayingText := itemText ?item\<rparr>"
  have ref: "currentSourceRef ?s1 = None" using assms(1,2) by (simp add: handleInv_def)
  note sp = handleInv_startPlayback [OF ref assms(4) assms(5), of ?item]
  obtain r s2 where r: "startPlayback ?item cb flt ?s1 = (r, s2)"
    by (cases "startPlayback ?item cb flt ?s1")
  show ?thesis
  proof (cases "renderedIsUserSpeaking s \<or> renderedQueue s = [] \<or> renderedIsPlaying s")
    case True
    then show ?thesis using assms(1,3) by (auto simp add: playNext_def)
  next
    case False
    then show ?thesis using sp r assms(3)
      by (cases r) (auto simp add: playNext_def Let_def handleInv_def split: option.splits)
  qed
qed

lemma handleInv_interrupt: "handleInv (interrupt s) \<and> audioContextRef (interrupt s) = audioContextRef s"
  by (simp add: handleInv_def interrupt_fields)

lemma handleInv_step:
  assumes "handleInv s" and "audioContextRef s \<noteq> None" and "cb \<noteq> Some Throws"
    and "effectsPending s \<and> isPlaying s \<longrightarrow> renderedIsPlaying s"
    and "\<And>sp. ev \<noteq> Render sp (Some StartThrows)" and "ev \<noteq> Effects (Some StartThrows)"
  shows "handleInv (queueStep cb s ev) \<and> audioContextRef (queueStep cb s ev) \<noteq> None \<and>
         (effectsPending (queueStep cb s ev) \<and> isPlaying (queueStep cb s ev)
            \<longrightarrow> renderedIsPlaying (queueStep cb s ev))"
proof -
  have fl: "handleInv (flushEffects cb flt u) \<and> audioContextRef (flushEffects cb flt u) \<noteq> None \<and>
         (effectsPending (flushEffects cb flt u) \<and> isPlaying (flushEffects cb flt u)
            \<longrightarrow> renderedIsPlaying (flushEffects cb flt u))"
    if u: "handleInv u" "audioContextRef u \<noteq> None" "effectsPending u \<and> isPlaying u \<longrightarrow> renderedIsPlaying u"
      and flt: "flt \<noteq> Some StartThrows"
    for u flt
  proof (cases "effectsPending u")
    case False
    then show ?thesis using u by (simp add: flushEffects_def)
  next
    case pending: True
    have "handleInv (runEffects cb flt u) \<and> audioContextRef (runEffects cb flt u) \<noteq> None"
    proof (cases "renderedQueue u \<noteq> [] \<and> \<not> renderedIsPlaying u \<and> \<not> renderedIsUserSpeaking u")
      case True
      then have idle: "\<not> isPlaying u" using u(3) pending by auto
      from True have "runEffects cb flt u = playNext cb flt u" by (simp add: runEffects_def)
      then show ?thesis using handleInv_playNext [OF u(1) idle u(2) flt assms(3)] by simp
    next
      case False
      then have "runEffects cb flt u = u \<or> runEffects cb flt u = interrupt u"
        by (auto simp add: runEffects_def)
      then show ?thesis using u(1,2) handleInv_interrupt [of u] by auto
    qed
    then show ?thesis using pending by (simp add: flushEffects_def handleInv_def)
  qed
  show ?thesis
  proof (cases ev)
    case (Effects flt)
    then have "flt \<noteq> Some StartThrows" using assms(6) by auto
    from fl [OF assms(1) assms(2) assms(4) this] show ?thesis unfolding Effects by simp
  next
    case (Render sp flt)
    then have flt: "flt \<noteq> Some StartThrows" using assms(5) by auto
    have c: "handleInv (commitRender sp s)" "audioContextRef (commitRender sp s) \<noteq> None"
        "effectsPending (commitRender sp s) \<and> isPlaying (commitRender sp s)
           \<longrightarrow> renderedIsPlaying (commitRender sp s)"
      using assms(1,2,4) by (auto simp add: handleInv_def commitRender_def)
    from fl [OF c flt] show ?thesis unfolding Render by simp
  next
    case (Commit sp)
    then show ?thesis using assms(1,2,4) by (auto simp add: handleInv_def commitRender_def)
  qed (insert assms, auto simp add: handleInv_def enqueue_def onended_def clearQueue_def
        resetFirstAudioFlag_def stopSource_def split: option.splits)
qed

text \<open>
  The \<^verbatim>\<open>onended\<close> handler does not check which node ended. If the \<^verbatim>\<open>ended\<close> event of a stopped
  node is delivered only after the next item has started, the handler drops the handle of
  the node that is sounding, and the item after it starts on top of it. The items are
  still started in their order.
\<close>

lemma stale_ended_race:
  "sounding (queueRun None initAudioQueue
     [itemA, Render False None, Render True None, itemB, Render False None,
      Ended 0, itemC, Render False None]) = [1, 2]"
  by code_simp

text \<open>
  After that race the queue holds the handle of the later node only. An interrupt then
  stops the node whose handle is held, and the other node goes on sounding.
\<close>

lemma interrupt_after_race:
  "currentSourceRef (queueRun None initAudioQueue
     [itemA, Render False None, Render True None, itemB, Render False None,
      Ended 0, itemC, Render False None]) = Some 2 \<and>
   sounding (queueRun None initAudioQueue
     [itemA, Render False None, Render True None, itemB, Render False None,
      Ended 0, itemC, Render False None, Render True None]) = [1]"
  by code_simp

section \<open>Stopping the transcription, and the end of the interview\<close>

lemma release_released:
  "snd (catchAll (release d r s)) = s\<lparr>released := released s @ releasable d r\<rparr>"
  by (cases r) (simp_all add: catchAll_def release_def releasable_def)

lemma stopTranscription_eq:
  "stopTranscription s =
     (None, s\<lparr>released := released s @ releasable Recorder (mediaRecorderRef s)
                 @ releasable Tracks (streamRef s) @ releasable WebSocket (sttSocketRef s),
              mediaRecorderRef := None, streamRef := None, sttSocketRef := None,
              isSpeakingRef := False, isSpeaking := False,
              speechFinalReceivedRef := False, isTranscribing := False,
              currentTranscript := []\<rparr>)"
proof -
  have a: "\<And>r f. andThen (catchAll r) f = f (snd (catchAll r))"
    by (simp add: andThen_def catchAll_def)
  show ?thesis
    by (simp add: stopTranscription_def a release_released setSpeaking_def)
qed

text \<open>
  C7 (as amended). \<^verbatim>\<open>stopTranscription\<close> never throws, whichever release calls fail, and every
  resource that does not refuse is released. After it the user is not speaking, the
  interim transcript is empty, the session is not transcribing and the three refs are
  null. The finalized utterances are left exactly as they were: only their consumer
  clears them.
\<close>

theorem stopTranscription_resets:
  "fst (stopTranscription s) = None \<and>
   \<not> isSpeaking (snd (stopTranscription s)) \<and>
   \<not> isSpeakingRef (snd (stopTranscription s)) \<and>
   currentTranscript (snd (stopTranscription s)) = [] \<and>
   \<not> isTranscribing (snd (stopTranscription s)) \<and>
   \<not> speechFinalReceivedRef (snd (stopTranscription s)) \<and>
   mediaRecorderRef (snd (stopTranscription s)) = None \<and>
   streamRef (snd (stopTranscription s)) = None \<and>
   sttSocketRef (snd (stopTranscription s)) = None \<and>
   finalizedTranscripts (snd (stopTranscription s)) = finalizedTranscripts s \<and>
   released (snd (stopTranscription s)) =
     released s @ releasable Recorder (mediaRecorderRef s)
       @ releasable Tracks (streamRef s) @ releasable WebSocket (sttSocketRef s)"
  by (simp add: stopTranscription_eq)

text \<open>The session is stopped in the middle of an utterance; its recorder refuses to stop.\<close>

theorem stopTranscription_resets_witness:
  "fst (stopTranscription midUtterance) = None \<and>
   isSpeaking midUtterance \<and> \<not> isSpeaking (snd (stopTranscription midUtterance)) \<and>
   isTranscribing midUtterance \<and> \<not> isTranscribing (snd (stopTranscription midUtterance)) \<and>
   finalizedTranscripts (snd (stopTranscription midUtterance)) = [''I think''] \<and>
   released (snd (stopTranscription midUtterance)) = [Tracks, WebSocket]"
proof -
  have a: "isSpeaking midUtterance" "isTranscribing midUtterance"
      "finalizedTranscripts midUtterance = [''I think'']" "released midUtterance = []"
      "mediaRecorderRef midUtterance = Some (Resource True)"
      "streamRef midUtterance = Some (Resource False)"
      "sttSocketRef midUtterance = Some (Resource False)"
    by code_simp+
  show ?thesis
    using stopTranscription_resets [of midUtterance] a by (simp add: releasable_def)
qed

text \<open>
  C7 as stated has the finalized utterances empty after the stop. One final transcript
  has arrived, the session is stopped, and the transcript is still there.
\<close>

theorem stop_keeps_finalized_counterexample:
  "finalizedTranscripts (snd (stopTranscription midUtterance)) = [''I think'']"
  by code_simp

lemma clearQueue_empties:
  "queue (clearQueue q) = [] \<and> \<not> isPlaying (clearQueue q) \<and>
   currentPlayingText (clearQueue q) = [] \<and> currentSourceRef (clearQueue q) = None \<and>
   (case currentSourceRef q of None \<Rightarrow> True | Some a \<Rightarrow> a \<notin> set (sounding (clearQueue q)))"
  by (simp add: clearQueue_def stopSource_def split: option.splits)

text \<open>
  C8 (as amended). When the completion signal reaches the mounted page, the handler marks
  the call inactive, clears the playback queue and disconnects the socket, all before it
  returns: the queue is then empty and idle, no text is shown as playing, no handle is
  held and the node whose handle was held no longer sounds; a socket that was there is
  disconnected. The only thing the handler defers, by 2000 ms, is the route change to the
  dashboard. This holds whatever \<open>isTranscribing\<close> the handler reads.
\<close>

theorem interview_completed_effects:
  assumes "mounted s"
  shows "let s' = interview_completed rendered outcome s in
           \<not> callActive s' \<and>
           queue (aq s') = [] \<and> \<not> isPlaying (aq s') \<and> currentPlayingText (aq s') = [] \<and>
           currentSourceRef (aq s') = None \<and>
           (case currentSourceRef (aq s) of
              None \<Rightarrow> True
            | Some a \<Rightarrow> a \<notin> set (sounding (aq s'))) \<and>
           socketRef s' = map_option (\<lambda>sock. Socket False) (socketRef s) \<and>
           socketRef s' \<noteq> Some (Socket True) \<and>
           timers s' = timers s @ [(2000, ''/dashboard'')]"
proof -
  have eq: "aq (interview_completed rendered outcome s) = clearQueue (aq s)"
    using assms by (simp add: interview_completed_def Let_def)
  have rest: "\<not> callActive (interview_completed rendered outcome s) \<and>
      socketRef (interview_completed rendered outcome s)
        = map_option (\<lambda>sock. Socket False) (socketRef s) \<and>
      timers (interview_completed rendered outcome s) = timers s @ [(2000, ''/dashboard'')]"
    using assms by (simp add: interview_completed_def Let_def)
  have sock: "map_option (\<lambda>sock. Socket False) (socketRef s) \<noteq> Some (Socket True)"
    by (cases "socketRef s") simp_all
  show ?thesis
    unfolding Let_def eq using clearQueue_empties [of "aq s"] rest sock by simp
qed

text \<open>
  A running call in which the first of three items is playing; the handler is the one
  that the socket effect registered at the first render, when \<open>isTranscribing\<close> was false.
\<close>

theorem interview_completed_effects_witness:
  "mounted playingPage \<and> callActive playingPage \<and>
   map itemText (queue (aq playingPage)) = [''How are you?'', ''Shall we start?''] \<and>
   isPlaying (aq playingPage) \<and> currentSourceRef (aq playingPage) = Some 0 \<and>
   sounding (aq playingPage) = [0] \<and> socketRef playingPage = Some (Socket True) \<and>
   \<not> callActive (interview_completed False devices playingPage) \<and>
   queue (aq (interview_completed False devices playingPage)) = [] \<and>
   \<not> isPlaying (aq (interview_completed False devices playingPage)) \<and>
   currentSourceRef (aq (interview_completed False devices playingPage)) = None \<and>
   0 \<notin> set (sounding (aq (interview_completed False devices playingPage))) \<and>
   socketRef (interview_completed False devices playingPage) = Some (Socket False) \<and>
   timers (interview_completed False devices playingPage) = [(2000, ''/dashboard'')]"
proof -
  have m: "mounted playingPage" by code_simp
  have a: "socketRef playingPage = Some (Socket True)" "timers playingPage = []"
      "callActive playingPage" "isPlaying (aq playingPage)"
      "currentSourceRef (aq playingPage) = Some 0" "sounding (aq playingPage) = [0]"
    by code_simp+
  have q: "map itemText (queue (aq playingPage)) = [''How are you?'', ''Shall we start?'']"
    by code_simp
  note th = interview_completed_effects [OF m, of False devices, unfolded Let_def a(1) a(2) a(5)]
  show ?thesis
    using th m a q by simp
qed

text \<open>
  In the page as written the handler is registered by the socket effect, which runs once
  for an interview, at the first render; the \<open>isTranscribing\<close> it reads is the value of that
  render, false. A session started afterwards is then still transcribing when the
  handler has returned.
\<close>

lemma completed_keeps_session:
  "isTranscribing (stt playingPage) \<and>
   isTranscribing (stt (interview_completed False devices playingPage)) \<and>
   \<not> isTranscribing (stt (interview_completed True devices playingPage))"
  by code_simp

text \<open>
  C8 as stated keeps the channel open during the delay. When the handler returns the
  socket is disconnected and the timer of 2000 ms has not fired yet.
\<close>

theorem channel_closed_at_once_counterexample:
  "socketRef activePage = Some (Socket True) \<and>
   socketRef (interview_completed False devices activePage) = Some (Socket False) \<and>
   timers (interview_completed False devices activePage) = [(2000, ''/dashboard'')]"
  by code_simp


section \<open>Starting and stopping the call\<close>

lemma resetBuffer_fields [simp]:
  "lastTranscriptRef (resetBuffer s) = lastTranscriptRef s"
  "emitted (resetBuffer s) = emitted s"
  "socketRef (resetBuffer s) = socketRef s"
  "stt (resetBuffer s) = stt s"
  "textBufferRef (resetBuffer s) = []"
  "\<not> isProcessingRef (resetBuffer s)"
  "\<not> pendingFlushRef (resetBuffer s)"
  by (simp_all add: resetBuffer_def setter_defs)

lemma emitStart_fields [simp]:
  "lastTranscriptRef (emitStart s) = lastTranscriptRef s"
  "socketRef (emitStart s) = socketRef s"
  "textBufferRef (emitStart s) = textBufferRef s"
  "isProcessingRef (emitStart s) = isProcessingRef s"
  "pendingFlushRef (emitStart s) = pendingFlushRef s"
  by (simp_all add: emitStart_def)









end
